theory Spec2Isabelle
  imports
    Complex_Main
    "HOL-Library.AList"
    "HOL-Library.Sublist"
    "HOL-Library.Char_ord"
    "HOL-Library.List_Lexorder"
    "HOL-Library.Multiset"
begin

section \<open>Data model (types.ts)\<close>

text \<open>
  The interfaces of the type module become records. Field names carry a short prefix where
  two interfaces share a field name. An optional array field (\<open>linkedRecords?\<close>,
  \<open>linkedDocuments?\<close>) is a list, the absent array being the empty list: every use in the
  code is \<open>?.forEach\<close>, \<open>?.find\<close>, \<open>|| []\<close> or \<open>?.length || 0\<close>, which treat the two alike.
  Other optional fields are options. Metadata bags are opaque.
\<close>

type_synonym LinkType = string

type_synonym metadata = "(string \<times> string) list option"

record RecordLink =
  rl_recordKey :: string
  rl_linkType :: LinkType

record DocumentLink =
  dl_documentKey :: string
  dl_versionId :: "string option"
  dl_linkType :: LinkType

record DocumentVersion =
  versionId :: string
  versionNumber :: string
  createdAt :: string
  v_metadata :: metadata

record RecordNode =
  recordKey :: string
  r_title :: string
  r_description :: "string option"
  r_metadata :: metadata
  r_linkedRecords :: "RecordLink list"
  r_linkedDocuments :: "DocumentLink list"

record Document =
  documentKey :: string
  d_title :: string
  d_description :: "string option"
  d_metadata :: metadata
  versions :: "DocumentVersion list"
  d_linkedRecords :: "RecordLink list"
  d_linkedDocuments :: "DocumentLink list"

datatype NodeType = RecordT | DocumentT | DocumentVersionT

record Position =
  pos_x :: rat
  pos_y :: rat

record FlowNodeData =
  nd_type :: NodeType
  nd_recordKey :: "string option"
  nd_documentKey :: "string option"
  nd_versionId :: "string option"
  nd_versionNumber :: "string option"
  nd_title :: string
  nd_versions :: "DocumentVersion list option"
  nd_metadata :: metadata
  isExpanded :: "bool option"
  childCount :: "nat option"

record FlowNode =
  node_id :: string
  node_type :: NodeType
  position :: Position
  node_data :: FlowNodeData

record FlowEdge =
  edge_id :: string
  source :: string
  target :: string
  edge_type :: "string option"
  edge_linkType :: "LinkType option"
  animated :: "bool option"
  edge_style :: "(string \<times> nat) option"

type_synonym ExpandedState = "string \<rightharpoonup> bool"

section \<open>JavaScript containers and sorting\<close>

text \<open>
  A JavaScript \<open>Map\<close> is an association list in insertion order: \<open>get\<close> is \<^const>\<open>map_of\<close>,
  \<open>has\<close> asks whether \<open>get\<close> finds something, and \<open>set\<close> replaces the value of a key that is
  present, where it stands, and appends a new key (\<^const>\<open>AList.update\<close>).
\<close>

definition mapHas :: "('k \<times> 'v) list \<Rightarrow> 'k \<Rightarrow> bool" where
  "mapHas m k = (map_of m k \<noteq> None)"

definition mapSet :: "'k \<Rightarrow> 'v \<Rightarrow> ('k \<times> 'v) list \<Rightarrow> ('k \<times> 'v) list" where
  "mapSet k v m = AList.update k v m"

definition mapValues :: "('k \<times> 'v) list \<Rightarrow> 'v list" where
  "mapValues m = map snd m"

definition mapFromEntries :: "('k \<times> 'v) list \<Rightarrow> ('k \<times> 'v) list" where
  "mapFromEntries entries = fold (\<lambda>(k, v) m. mapSet k v m) entries []"

text \<open>
  \<open>Array.prototype.sort\<close> with a comparator is stable. For a comparator that is a total
  preorder, as the three comparators of this program are, its result is the one of the
  stable insertion sort below: an element goes before the first element it does not have
  to follow.
\<close>

fun insertBy :: "('a \<Rightarrow> 'a \<Rightarrow> 'b::{linorder, zero}) \<Rightarrow> 'a \<Rightarrow> 'a list \<Rightarrow> 'a list" where
  "insertBy cmp v [] = [v]"
| "insertBy cmp v (w # ws) = (if cmp v w \<le> 0 then v # w # ws else w # insertBy cmp v ws)"

definition sortBy :: "('a \<Rightarrow> 'a \<Rightarrow> 'b::{linorder, zero}) \<Rightarrow> 'a list \<Rightarrow> 'a list" where
  "sortBy cmp vs = foldr (insertBy cmp) vs []"

definition isDigit :: "char \<Rightarrow> bool" where
  "isDigit c = (c \<in> set ''0123456789'')"

text \<open>
  \<open>a.localeCompare(b)\<close> compares by the collation of the platform's locale, which is not
  part of this program. What every collation has in common is that it orders the digits 0
  to 9 as the numbers they stand for. So the comparison is known for two time stamps of
  one format, that is, two strings written with digits and the characters \<open>-\<close>, \<open>:\<close>, \<open>.\<close>,
  \<open>+\<close>, \<open>T\<close> and \<open>Z\<close> that are equal but for the value of their digits: there it is the
  lexicographic order of the characters. For any other pair of strings (two time stamps
  that differ in the sign of the zone offset, say) the result is left open.
\<close>

definition isStampChar :: "char \<Rightarrow> bool" where
  "isStampChar c = (isDigit c \<or> c \<in> set ''-:.+TZ'')"

definition stampFormat :: "string \<Rightarrow> string" where
  "stampFormat s = map (\<lambda>c. if isDigit c then CHR ''0'' else c) s"

definition sameFormat :: "string \<Rightarrow> string \<Rightarrow> bool" where
  "sameFormat a b = (list_all isStampChar a \<and> stampFormat a = stampFormat b)"

definition localeCompare :: "string \<Rightarrow> string \<Rightarrow> int" where
  "localeCompare a b =
     (if sameFormat a b then (if a < b then - 1 else if a = b then 0 else 1)
      else undefined a b)"

section \<open>Deduplication and version merging (dedup.ts)\<close>

definition createRecordNodeId :: "string \<Rightarrow> string" where
  "createRecordNodeId key = ''record-'' @ key"

definition createDocumentNodeId :: "string \<Rightarrow> string" where
  "createDocumentNodeId key = ''document-'' @ key"

definition createDocumentVersionNodeId :: "string \<Rightarrow> string" where
  "createDocumentVersionNodeId vid = ''version-'' @ vid"

definition deduplicateRecords :: "RecordNode list \<Rightarrow> RecordNode list" where
  "deduplicateRecords records =
     mapValues (fold (\<lambda>record seen.
        if \<not> mapHas seen (recordKey record) then mapSet (recordKey record) record seen
        else seen) records [])"

definition mergeDocumentVersions ::
  "DocumentVersion list \<Rightarrow> DocumentVersion list \<Rightarrow> DocumentVersion list" where
  "mergeDocumentVersions versions1 versions2 =
     sortBy (\<lambda>a b. localeCompare (createdAt b) (createdAt a))
       (mapValues (fold (\<lambda>version merged.
          if \<not> mapHas merged (versionId version) then mapSet (versionId version) version merged
          else merged) (versions1 @ versions2) []))"

text \<open>
  Documents are objects, and \<open>deduplicateDocuments\<close> assigns to a field of one: the input
  array holds references into a store of documents, and the function returns the store
  with the array of the references it kept.
\<close>

type_synonym ref = nat

type_synonym store = "ref \<Rightarrow> Document"

definition dedupDocument ::
  "ref \<Rightarrow> store \<times> (string \<times> ref) list \<Rightarrow> store \<times> (string \<times> ref) list" where
  "dedupDocument doc = (\<lambda>(st, seen).
     if \<not> mapHas seen (documentKey (st doc)) then (st, mapSet (documentKey (st doc)) doc seen)
     else (case map_of seen (documentKey (st doc)) of
             None \<Rightarrow> (st, seen)
           | Some existing \<Rightarrow>
               (st(existing := (st existing)\<lparr>versions :=
                    mergeDocumentVersions (versions (st existing)) (versions (st doc))\<rparr>),
                seen)))"

definition deduplicateDocuments :: "store \<Rightarrow> ref list \<Rightarrow> store \<times> ref list" where
  "deduplicateDocuments st documents =
     (case fold dedupDocument documents (st, []) of (st', seen) \<Rightarrow> (st', mapValues seen))"

text \<open>
  \<open>sortVersions\<close>. \<open>v.split('.')\<close> cuts at every dot. \<open>Number\<close> is the conversion of the
  language, which reads far more than version numbers hold (signs, exponents, hexadecimal
  digits, white space) and rounds to a double. It is known here on the segments a version
  number is made of: a string of at most 15 decimal digits is the number it writes, which
  a double holds exactly, and the empty string is 0. On any other string the result is
  left open. \<open>None\<close> is \<open>NaN\<close>, and \<open>parts[i] || 0\<close> is 0 for a missing index, for \<open>NaN\<close> and
  for 0.
\<close>

fun splitOn :: "char \<Rightarrow> string \<Rightarrow> string list" where
  "splitOn c [] = [[]]"
| "splitOn c (d # ds) =
     (if d = c then [] # splitOn c ds
      else (case splitOn c ds of [] \<Rightarrow> [[d]] | s # ss \<Rightarrow> (d # s) # ss))"

definition jsNumber :: "string \<Rightarrow> nat option" where
  "jsNumber s = (if list_all isDigit s \<and> length s \<le> 15
                 then Some (foldl (\<lambda>n c. 10 * n + (of_char c - 48)) 0 s)
                 else undefined s)"

definition parseVersion :: "string \<Rightarrow> nat option list" where
  "parseVersion v = map jsNumber (splitOn (CHR ''.'') v)"

definition partOrZero :: "nat option list \<Rightarrow> nat \<Rightarrow> nat" where
  "partOrZero parts i =
     (if i < length parts then (case parts ! i of None \<Rightarrow> 0 | Some n \<Rightarrow> n) else 0)"

function compareParts :: "nat option list \<Rightarrow> nat option list \<Rightarrow> nat \<Rightarrow> int" where
  "compareParts aParts bParts i =
     (if i < max (length aParts) (length bParts)
      then (if partOrZero aParts i \<noteq> partOrZero bParts i
            then int (partOrZero bParts i) - int (partOrZero aParts i)
            else compareParts aParts bParts (i + 1))
      else 0)"
  by pat_completeness auto
termination
  by (relation "measure (\<lambda>(a, b, i). max (length a) (length b) - i)") auto

declare compareParts.simps [simp del]

definition compareVersions :: "DocumentVersion \<Rightarrow> DocumentVersion \<Rightarrow> int" where
  "compareVersions a b =
     compareParts (parseVersion (versionNumber a)) (parseVersion (versionNumber b)) 0"

definition sortVersions :: "DocumentVersion list \<Rightarrow> DocumentVersion list" where
  "sortVersions vs = sortBy compareVersions vs"

section \<open>Data repository (dedup.ts)\<close>

record DataRepository =
  records :: "(string \<times> RecordNode) list"
  documents :: "(string \<times> Document) list"
  allRecords :: "RecordNode list"
  allDocuments :: "Document list"

text \<open>
  The repository holds the document objects themselves; no document is assigned to after
  it is built, so it is given here with the documents as they stand in the final store.
\<close>

definition createDataRepository ::
  "store \<Rightarrow> RecordNode list \<Rightarrow> ref list \<Rightarrow> store \<times> DataRepository" where
  "createDataRepository st recs docs =
     (let dedupedRecords = deduplicateRecords recs in
      case deduplicateDocuments st docs of (st', dedupedRefs) \<Rightarrow>
        (let dedupedDocuments = map st' dedupedRefs in
         (st', \<lparr> records = mapFromEntries (map (\<lambda>r. (recordKey r, r)) dedupedRecords),
                documents = mapFromEntries (map (\<lambda>d. (documentKey d, d)) dedupedDocuments),
                allRecords = dedupedRecords,
                allDocuments = dedupedDocuments \<rparr>)))"

definition getRecord :: "DataRepository \<Rightarrow> string \<Rightarrow> RecordNode option" where
  "getRecord repository key = map_of (records repository) key"

definition getDocument :: "DataRepository \<Rightarrow> string \<Rightarrow> Document option" where
  "getDocument repository key = map_of (documents repository) key"

section \<open>Node index (dedup.ts)\<close>

text \<open>
  The four maps of the node index are only read with \<open>get\<close> and written with \<open>set\<close>, never
  listed, so each is a finite map.
\<close>

record NodeIndex =
  recordsByKey :: "string \<rightharpoonup> FlowNode"
  documentsByKey :: "string \<rightharpoonup> FlowNode"
  versionsById :: "string \<rightharpoonup> FlowNode"
  nodeById :: "string \<rightharpoonup> FlowNode"

definition createNodeIndex :: NodeIndex where
  "createNodeIndex = \<lparr> recordsByKey = Map.empty, documentsByKey = Map.empty,
                        versionsById = Map.empty, nodeById = Map.empty \<rparr>"

definition indexRecordNode :: "NodeIndex \<Rightarrow> string \<Rightarrow> FlowNode \<Rightarrow> NodeIndex" where
  "indexRecordNode index key node =
     index\<lparr> recordsByKey := (recordsByKey index)(key \<mapsto> node),
            nodeById := (nodeById index)(node_id node \<mapsto> node) \<rparr>"

definition indexDocumentNode :: "NodeIndex \<Rightarrow> string \<Rightarrow> FlowNode \<Rightarrow> NodeIndex" where
  "indexDocumentNode index key node =
     index\<lparr> documentsByKey := (documentsByKey index)(key \<mapsto> node),
            nodeById := (nodeById index)(node_id node \<mapsto> node) \<rparr>"

definition indexDocumentVersionNode :: "NodeIndex \<Rightarrow> string \<Rightarrow> FlowNode \<Rightarrow> NodeIndex" where
  "indexDocumentVersionNode index vid node =
     index\<lparr> versionsById := (versionsById index)(vid \<mapsto> node),
            nodeById := (nodeById index)(node_id node \<mapsto> node) \<rparr>"

text \<open>The size of a \<open>Set\<close> filled from a list is the number of distinct values of the list.\<close>

definition calculateRecordChildCount :: "RecordNode \<Rightarrow> nat" where
  "calculateRecordChildCount record =
     length (remdups (map dl_documentKey (r_linkedDocuments record)))
     + length (remdups (map rl_recordKey (r_linkedRecords record)))"

definition calculateDocumentChildCount :: "Document \<Rightarrow> nat" where
  "calculateDocumentChildCount document =
     length (remdups (map dl_documentKey (d_linkedDocuments document)))
     + length (remdups (map rl_recordKey (d_linkedRecords document)))
     + length (versions document)"

definition getOrCreateRecordNode ::
  "NodeIndex \<Rightarrow> RecordNode \<Rightarrow> Position \<Rightarrow> NodeIndex \<times> FlowNode" where
  "getOrCreateRecordNode index record pos =
     (case recordsByKey index (recordKey record) of
        Some existingNode \<Rightarrow> (index, existingNode)
      | None \<Rightarrow>
          (let node = \<lparr> node_id = createRecordNodeId (recordKey record),
                        node_type = RecordT,
                        position = pos,
                        node_data = \<lparr> nd_type = RecordT,
                                      nd_recordKey = Some (recordKey record),
                                      nd_documentKey = None,
                                      nd_versionId = None,
                                      nd_versionNumber = None,
                                      nd_title = r_title record,
                                      nd_versions = None,
                                      nd_metadata = r_metadata record,
                                      isExpanded = Some False,
                                      childCount = Some (calculateRecordChildCount record) \<rparr> \<rparr>
           in (indexRecordNode index (recordKey record) node, node)))"

definition getOrCreateDocumentNode ::
  "NodeIndex \<Rightarrow> Document \<Rightarrow> Position \<Rightarrow> NodeIndex \<times> FlowNode" where
  "getOrCreateDocumentNode index document pos =
     (case documentsByKey index (documentKey document) of
        Some existingNode \<Rightarrow> (index, existingNode)
      | None \<Rightarrow>
          (let node = \<lparr> node_id = createDocumentNodeId (documentKey document),
                        node_type = DocumentT,
                        position = pos,
                        node_data = \<lparr> nd_type = DocumentT,
                                      nd_recordKey = None,
                                      nd_documentKey = Some (documentKey document),
                                      nd_versionId = None,
                                      nd_versionNumber = None,
                                      nd_title = d_title document,
                                      nd_versions = Some (sortVersions (versions document)),
                                      nd_metadata = d_metadata document,
                                      isExpanded = Some False,
                                      childCount = Some (calculateDocumentChildCount document) \<rparr> \<rparr>
           in (indexDocumentNode index (documentKey document) node, node)))"

definition getOrCreateDocumentVersionNode ::
  "NodeIndex \<Rightarrow> string \<Rightarrow> DocumentVersion \<Rightarrow> Position \<Rightarrow> NodeIndex \<times> FlowNode" where
  "getOrCreateDocumentVersionNode index docKey version pos =
     (case versionsById index (versionId version) of
        Some existingNode \<Rightarrow> (index, existingNode)
      | None \<Rightarrow>
          (let node = \<lparr> node_id = createDocumentVersionNodeId (versionId version),
                        node_type = DocumentVersionT,
                        position = pos,
                        node_data = \<lparr> nd_type = DocumentVersionT,
                                      nd_recordKey = None,
                                      nd_documentKey = Some docKey,
                                      nd_versionId = Some (versionId version),
                                      nd_versionNumber = Some (versionNumber version),
                                      nd_title = ''v'' @ versionNumber version,
                                      nd_versions = None,
                                      nd_metadata = v_metadata version,
                                      isExpanded = None,
                                      childCount = Some 0 \<rparr> \<rparr>
           in (indexDocumentVersionNode index (versionId version) node, node)))"

section \<open>Deduplication: one entity per key\<close>

lemma update_absent: "map_of m k = None \<Longrightarrow> AList.update k v m = m @ [(k, v)]"
  by (induction m) (auto split: if_splits)

lemma mapFromEntries_distinct_aux:
  "distinct (map fst es) \<Longrightarrow> fst ` set es \<inter> fst ` set m = {} \<Longrightarrow>
   fold (\<lambda>(k, v) m. mapSet k v m) es m = m @ es"
proof (induction es arbitrary: m)
  case Nil
  then show ?case by simp
next
  case (Cons e es)
  obtain k v where e: "e = (k, v)" by (cases e)
  from Cons.prems have "map_of m k = None"
    by (auto simp: e map_of_eq_None_iff)
  then have u: "mapSet k v m = m @ [(k, v)]" by (simp add: mapSet_def update_absent)
  have "fold (\<lambda>(k, v) m. mapSet k v m) es (m @ [(k, v)]) = (m @ [(k, v)]) @ es"
    using Cons.prems by (intro Cons.IH) (auto simp: e)
  then show ?case by (simp add: e u)
qed

lemma mapFromEntries_distinct: "distinct (map fst es) \<Longrightarrow> mapFromEntries es = es"
  using mapFromEntries_distinct_aux [of es "[]"] by (simp add: mapFromEntries_def)

text \<open>
  The loop body shared by \<open>deduplicateRecords\<close> and \<open>mergeDocumentVersions\<close>: keep the first
  value seen for a key.
\<close>

definition keepFirst :: "('a \<Rightarrow> 'k) \<Rightarrow> 'a \<Rightarrow> ('k \<times> 'a) list \<Rightarrow> ('k \<times> 'a) list" where
  "keepFirst key v seen = (if \<not> mapHas seen (key v) then mapSet (key v) v seen else seen)"

lemma keepFirst_fold_map_of:
  "map_of (fold (keepFirst key) vs seen) k =
     (case map_of seen k of Some v \<Rightarrow> Some v | None \<Rightarrow> find (\<lambda>v. key v = k) vs)"
  by (induction vs arbitrary: seen)
     (auto simp: keepFirst_def mapHas_def mapSet_def update_conv' split: option.splits)

lemma keepFirst_fold_distinct:
  "distinct (map fst seen) \<Longrightarrow> distinct (map fst (fold (keepFirst key) vs seen))"
  by (induction vs arbitrary: seen) (auto simp: keepFirst_def mapSet_def distinct_update)

lemma keepFirst_fold_keys:
  "list_all (\<lambda>(k, v). key v = k) seen \<Longrightarrow>
   list_all (\<lambda>(k, v). key v = k) (fold (keepFirst key) vs seen)"
proof (induction vs arbitrary: seen)
  case Nil
  then show ?case by simp
next
  case (Cons v vs)
  have "list_all (\<lambda>(k, v). key v = k) (keepFirst key v seen)"
    using Cons.prems by (auto simp: keepFirst_def mapHas_def mapSet_def update_absent)
  then show ?case using Cons.IH by simp
qed

lemma keepFirst_fold_keyset:
  "fst ` set (fold (keepFirst key) vs seen) = fst ` set seen \<union> key ` set vs"
  by (induction vs arbitrary: seen)
     (auto simp: keepFirst_def mapHas_def mapSet_def update_absent map_of_eq_None_iff
           simp flip: not_None_eq )

lemma deduplicateRecords_keepFirst:
  "deduplicateRecords recs = map snd (fold (keepFirst recordKey) recs [])"
  unfolding deduplicateRecords_def mapValues_def keepFirst_def by (rule refl)

lemma set_insertBy [simp]: "set (insertBy cmp v ws) = insert v (set ws)"
  by (induction ws) auto

lemma set_sortBy [simp]: "set (sortBy cmp vs) = set vs"
  by (induction vs) (auto simp: sortBy_def)

lemma mset_insertBy [simp]: "mset (insertBy cmp v ws) = add_mset v (mset ws)"
  by (induction ws) auto

lemma mset_sortBy [simp]: "mset (sortBy cmp vs) = mset vs"
  by (induction vs) (auto simp: sortBy_def)

lemma mergeDocumentVersions_keepFirst:
  "mergeDocumentVersions versions1 versions2 =
     sortBy (\<lambda>a b. localeCompare (createdAt b) (createdAt a))
       (map snd (fold (keepFirst versionId) (versions1 @ versions2) []))"
  unfolding mergeDocumentVersions_def mapValues_def keepFirst_def by (rule refl)

lemma keepFirst_values_keys:
  "key ` snd ` set (fold (keepFirst key) vs []) = key ` set vs"
proof -
  have "list_all (\<lambda>(k, v). key v = k) (fold (keepFirst key) vs [])"
    by (rule keepFirst_fold_keys) simp
  then have "key ` snd ` set (fold (keepFirst key) vs []) = fst ` set (fold (keepFirst key) vs [])"
    by (force simp: list_all_iff)
  then show ?thesis by (simp add: keepFirst_fold_keyset)
qed

lemma mergeDocumentVersions_ids:
  "versionId ` set (mergeDocumentVersions versions1 versions2) =
     versionId ` set versions1 \<union> versionId ` set versions2"
  using keepFirst_values_keys [of versionId "versions1 @ versions2"]
  by (simp add: mergeDocumentVersions_keepFirst image_Un)

definition dedupInv :: "store \<Rightarrow> ref list \<Rightarrow> store \<times> (string \<times> ref) list \<Rightarrow> bool" where
  "dedupInv st xs = (\<lambda>(sc, seen).
      (\<forall>r. (st r)\<lparr>versions := versions (sc r)\<rparr> = sc r)
    \<and> (\<forall>k. map_of seen k = find (\<lambda>r. documentKey (st r) = k) xs)
    \<and> distinct (map fst seen)
    \<and> (\<forall>r. r \<notin> snd ` set seen \<longrightarrow> sc r = st r)
    \<and> (\<forall>k a. map_of seen k = Some a \<longrightarrow>
          versionId ` set (versions (sc a)) =
            (\<Union>r\<in>{r \<in> set xs. documentKey (st r) = k}. versionId ` set (versions (st r)))))"

lemma find_snoc:
  "find P (xs @ [x]) = (case find P xs of None \<Rightarrow> (if P x then Some x else None) | Some y \<Rightarrow> Some y)"
  by (induction xs) auto

lemma find_app:
  "find P (xs @ ys) = (case find P xs of None \<Rightarrow> find P ys | Some x \<Rightarrow> Some x)"
  by (induction xs) simp_all

lemma dedupInv_step:
  assumes inv: "dedupInv st ys (sc, seen)"
  shows "dedupInv st (ys @ [x]) (dedupDocument x (sc, seen))"
proof -
  let ?K = "\<lambda>r. documentKey (st r)"
  from inv have I1: "\<And>r. (st r)\<lparr>versions := versions (sc r)\<rparr> = sc r"
    and I2: "\<And>k. map_of seen k = find (\<lambda>r. ?K r = k) ys"
    and I3: "distinct (map fst seen)"
    and I5: "\<And>r. r \<notin> snd ` set seen \<Longrightarrow> sc r = st r"
    and I6: "\<And>k a. map_of seen k = Some a \<Longrightarrow>
          versionId ` set (versions (sc a)) =
            (\<Union>r\<in>{r \<in> set ys. ?K r = k}. versionId ` set (versions (st r)))"
    by (auto simp: dedupInv_def)
  have key: "\<And>r. documentKey (sc r) = ?K r"
  proof -
    fix r
    have "documentKey ((st r)\<lparr>versions := versions (sc r)\<rparr>) = ?K r" by simp
    then show "documentKey (sc r) = ?K r" by (simp only: I1)
  qed
  have ran: "\<And>r. r \<in> snd ` set seen \<Longrightarrow> map_of seen (?K r) = Some r"
  proof -
    fix r assume "r \<in> snd ` set seen"
    then obtain k where "(k, r) \<in> set seen" by force
    with I3 have m: "map_of seen k = Some r" by simp
    with I2 have "find (\<lambda>r. ?K r = k) ys = Some r" by simp
    then have "?K r = k" by (auto simp: find_Some_iff)
    with m show "map_of seen (?K r) = Some r" by simp
  qed
  show ?thesis
  proof (cases "map_of seen (?K x)")
    case None
    then have step: "dedupDocument x (sc, seen) = (sc, seen @ [(?K x, x)])"
      by (simp add: dedupDocument_def mapHas_def mapSet_def key update_absent)
    have xfresh: "x \<notin> snd ` set seen" using ran [of x] None by auto
    have nokey: "\<And>r. r \<in> set ys \<Longrightarrow> ?K r \<noteq> ?K x"
      using None I2 [of "?K x"] by (auto simp: find_None_iff)
    have "\<forall>k. map_of (seen @ [(?K x, x)]) k = find (\<lambda>r. ?K r = k) (ys @ [x])"
      using I2 None by (auto simp: find_snoc map_add_def split: option.splits)
    moreover have "distinct (map fst (seen @ [(?K x, x)]))"
      using I3 None by (auto simp: map_of_eq_None_iff)
    moreover have "\<forall>r. r \<notin> snd ` set (seen @ [(?K x, x)]) \<longrightarrow> sc r = st r"
      using I5 by auto
    moreover have "\<forall>k a. map_of (seen @ [(?K x, x)]) k = Some a \<longrightarrow>
          versionId ` set (versions (sc a)) =
            (\<Union>r\<in>{r \<in> set (ys @ [x]). ?K r = k}. versionId ` set (versions (st r)))"
    proof (intro allI impI)
      fix k a assume m: "map_of (seen @ [(?K x, x)]) k = Some a"
      show "versionId ` set (versions (sc a)) =
            (\<Union>r\<in>{r \<in> set (ys @ [x]). ?K r = k}. versionId ` set (versions (st r)))"
      proof (cases "k = ?K x")
        case True
        with m None have "a = x" by (simp add: map_add_def)
        moreover have "{r \<in> set (ys @ [x]). ?K r = k} = {x}" using True nokey by auto
        moreover have "sc x = st x" using I5 xfresh by simp
        ultimately show ?thesis by simp
      next
        case False
        with m have "map_of seen k = Some a" by (auto simp: map_add_def split: option.splits)
        moreover have "{r \<in> set (ys @ [x]). ?K r = k} = {r \<in> set ys. ?K r = k}"
          using False by auto
        ultimately show ?thesis using I6 [of k a] by simp
      qed
    qed
    ultimately show ?thesis using I1 unfolding step dedupInv_def by simp
  next
    case (Some a)
    let ?sc = "sc(a := (sc a)\<lparr>versions := mergeDocumentVersions (versions (sc a)) (versions (sc x))\<rparr>)"
    from Some have step: "dedupDocument x (sc, seen) = (?sc, seen)"
      by (simp add: dedupDocument_def mapHas_def key)
    have ain: "a \<in> snd ` set seen" using Some by (force dest: map_of_SomeD)
    have "find (\<lambda>r. ?K r = ?K x) ys = Some a" using I2 Some by simp
    then have aK: "?K a = ?K x" and ays: "a \<in> set ys" by (auto simp: find_Some_iff)
    have J1: "\<forall>r. (st r)\<lparr>versions := versions (?sc r)\<rparr> = ?sc r"
    proof
      fix r
      show "(st r)\<lparr>versions := versions (?sc r)\<rparr> = ?sc r"
      proof (cases "r = a")
        case True
        have "(sc a)\<lparr>versions := v\<rparr> = (st a)\<lparr>versions := v\<rparr>" for v
        proof -
          have "((st a)\<lparr>versions := versions (sc a)\<rparr>)\<lparr>versions := v\<rparr> = (st a)\<lparr>versions := v\<rparr>"
            by simp
          then show ?thesis by (simp only: I1)
        qed
        then show ?thesis using True by simp
      next
        case False
        then show ?thesis using I1 [of r] by simp
      qed
    qed
    have J2: "\<forall>k. map_of seen k = find (\<lambda>r. ?K r = k) (ys @ [x])"
      using I2 Some by (auto simp: find_snoc split: option.splits)
    have J5: "\<forall>r. r \<notin> snd ` set seen \<longrightarrow> ?sc r = st r"
      using I5 ain by auto
    have J6: "\<forall>k b. map_of seen k = Some b \<longrightarrow>
          versionId ` set (versions (?sc b)) =
            (\<Union>r\<in>{r \<in> set (ys @ [x]). ?K r = k}. versionId ` set (versions (st r)))"
    proof (intro allI impI)
      fix k b assume m: "map_of seen k = Some b"
      show "versionId ` set (versions (?sc b)) =
            (\<Union>r\<in>{r \<in> set (ys @ [x]). ?K r = k}. versionId ` set (versions (st r)))"
      proof (cases "k = ?K x")
        case True
        with m Some have ba: "b = a" by simp
        have "versionId ` set (versions (?sc a)) =
                versionId ` set (versions (sc a)) \<union> versionId ` set (versions (sc x))"
          by (simp add: mergeDocumentVersions_ids)
        also have "\<dots> = (\<Union>r\<in>{r \<in> set (ys @ [x]). ?K r = ?K x}. versionId ` set (versions (st r)))"
        proof (cases "x \<in> snd ` set seen")
          case True
          with ran [of x] Some have "x = a" by simp
          then have "{r \<in> set (ys @ [x]). ?K r = ?K x} = {r \<in> set ys. ?K r = ?K x}"
            using ays by auto
          then show ?thesis using I6 [OF Some] \<open>x = a\<close> by simp
        next
          case False
          with I5 have "sc x = st x" by simp
          moreover have "{r \<in> set (ys @ [x]). ?K r = ?K x} = insert x {r \<in> set ys. ?K r = ?K x}"
            by auto
          ultimately show ?thesis using I6 [OF Some] by (simp add: Un_commute)
        qed
        finally show ?thesis using True ba by simp
      next
        case False
        have "b \<noteq> a"
        proof
          assume "b = a"
          with m I2 [of k] have "find (\<lambda>r. ?K r = k) ys = Some a" by simp
          then have "?K a = k" by (auto simp: find_Some_iff)
          with aK False show False by simp
        qed
        then have "?sc b = sc b" by simp
        moreover have "{r \<in> set (ys @ [x]). ?K r = k} = {r \<in> set ys. ?K r = k}"
          using False by auto
        ultimately show ?thesis using I6 [OF m] by simp
      qed
    qed
    show ?thesis using J1 J2 I3 J5 J6 unfolding step dedupInv_def by simp
  qed
qed

lemma dedupInv_fold: "dedupInv st xs (fold dedupDocument xs (st, []))"
proof (induction xs rule: rev_induct)
  case Nil
  show ?case by (simp add: dedupInv_def)
next
  case (snoc x xs)
  obtain sc seen where e: "fold dedupDocument xs (st, []) = (sc, seen)" by (cases "fold dedupDocument xs (st, [])")
  with snoc show ?case using dedupInv_step [of st xs sc seen x] by simp
qed

lemma entries_of_seen:
  "list_all (\<lambda>(k, v). key v = k) seen \<Longrightarrow> map (\<lambda>v. (key v, v)) (map snd seen) = seen"
  by (induction seen) auto

lemma keys_of_seen:
  "list_all (\<lambda>(k, v). key v = k) seen \<Longrightarrow> map key (map snd seen) = map fst seen"
  by (induction seen) auto

text \<open>
  The versions ingested under a key, in the order of the input, and what a merge keeps of
  two version lists: one version for each version id, the first in the two lists.
\<close>

definition ingested :: "store \<Rightarrow> ref list \<Rightarrow> string \<Rightarrow> DocumentVersion list" where
  "ingested st docs k =
     concat (map (\<lambda>r. versions (st r)) (filter (\<lambda>r. documentKey (st r) = k) docs))"

lemma ingested_snoc:
  "ingested st (ys @ [x]) k =
     ingested st ys k @ (if documentKey (st x) = k then versions (st x) else [])"
  by (simp add: ingested_def)

lemma ingested_ids:
  "versionId ` set (ingested st ys k) =
     (\<Union>r\<in>{r \<in> set ys. documentKey (st r) = k}. versionId ` set (versions (st r)))"
  by (auto simp: ingested_def)

lemma mergeDocumentVersions_distinct:
  "distinct (map versionId (mergeDocumentVersions versions1 versions2))"
proof -
  let ?seen = "fold (keepFirst versionId) (versions1 @ versions2) []"
  have k: "list_all (\<lambda>(k, v). versionId v = k) ?seen" by (rule keepFirst_fold_keys) simp
  have "distinct (map fst ?seen)" by (rule keepFirst_fold_distinct) simp
  then have "distinct (map versionId (map snd ?seen))" by (simp only: keys_of_seen [OF k])
  moreover have "mset (map versionId (mergeDocumentVersions versions1 versions2))
      = mset (map versionId (map snd ?seen))"
    by (simp only: mergeDocumentVersions_keepFirst mset_map mset_sortBy)
  ultimately show ?thesis by (metis mset_eq_imp_distinct_iff)
qed

lemma mergeDocumentVersions_first:
  assumes "v \<in> set (mergeDocumentVersions versions1 versions2)"
  shows "find (\<lambda>w. versionId w = versionId v) (versions1 @ versions2) = Some v"
proof -
  let ?seen = "fold (keepFirst versionId) (versions1 @ versions2) []"
  have k: "list_all (\<lambda>(k, v). versionId v = k) ?seen" by (rule keepFirst_fold_keys) simp
  have d: "distinct (map fst ?seen)" by (rule keepFirst_fold_distinct) simp
  from assms obtain i where m: "(i, v) \<in> set ?seen"
    by (auto simp: mergeDocumentVersions_keepFirst)
  with k have "versionId v = i" by (auto simp: list_all_iff)
  moreover from m d have "map_of ?seen i = Some v" by simp
  ultimately show ?thesis
    using keepFirst_fold_map_of [of versionId "versions1 @ versions2" "[]" i] by simp
qed

text \<open>
  What the loop of \<open>deduplicateDocuments\<close> keeps true of the version list of the document
  kept for a key: ingested once, the list is as it came; ingested again, it holds one
  version for each version id, the first ingested under the key.
\<close>

definition mergedInv :: "store \<Rightarrow> ref list \<Rightarrow> store \<times> (string \<times> ref) list \<Rightarrow> bool" where
  "mergedInv st xs = (\<lambda>(sc, seen).
     \<forall>k a. map_of seen k = Some a \<longrightarrow>
       (filter (\<lambda>r. documentKey (st r) = k) xs = [a] \<longrightarrow> versions (sc a) = versions (st a))
     \<and> (filter (\<lambda>r. documentKey (st r) = k) xs \<noteq> [a] \<longrightarrow>
           distinct (map versionId (versions (sc a)))
         \<and> (\<forall>v \<in> set (versions (sc a)).
               find (\<lambda>w. versionId w = versionId v) (ingested st xs k) = Some v)))"

lemma mergedInv_step:
  assumes inv: "dedupInv st ys (sc, seen)" and mer: "mergedInv st ys (sc, seen)"
  shows "mergedInv st (ys @ [x]) (dedupDocument x (sc, seen))"
proof -
  let ?K = "\<lambda>r. documentKey (st r)"
  from inv have I1: "\<And>r. (st r)\<lparr>versions := versions (sc r)\<rparr> = sc r"
    and I2: "\<And>k. map_of seen k = find (\<lambda>r. ?K r = k) ys"
    and I3: "distinct (map fst seen)"
    and I5: "\<And>r. r \<notin> snd ` set seen \<Longrightarrow> sc r = st r"
    and I6: "\<And>k a. map_of seen k = Some a \<Longrightarrow>
          versionId ` set (versions (sc a)) = versionId ` set (ingested st ys k)"
    by (auto simp: dedupInv_def ingested_ids)
  from mer have M1: "\<And>k a. map_of seen k = Some a \<Longrightarrow>
        filter (\<lambda>r. ?K r = k) ys = [a] \<Longrightarrow> versions (sc a) = versions (st a)"
    and M2: "\<And>k a. map_of seen k = Some a \<Longrightarrow> filter (\<lambda>r. ?K r = k) ys \<noteq> [a] \<Longrightarrow>
        distinct (map versionId (versions (sc a)))"
    and M3: "\<And>k a v. map_of seen k = Some a \<Longrightarrow> filter (\<lambda>r. ?K r = k) ys \<noteq> [a] \<Longrightarrow>
        v \<in> set (versions (sc a)) \<Longrightarrow>
        find (\<lambda>w. versionId w = versionId v) (ingested st ys k) = Some v"
    by (auto simp: mergedInv_def)
  have key: "documentKey (sc r) = ?K r" for r
  proof -
    have "documentKey ((st r)\<lparr>versions := versions (sc r)\<rparr>) = ?K r" by simp
    then show ?thesis by (simp only: I1)
  qed
  have ran: "map_of seen (?K r) = Some r" if "r \<in> snd ` set seen" for r
  proof -
    from that obtain k where "(k, r) \<in> set seen" by force
    with I3 have m: "map_of seen k = Some r" by simp
    with I2 have "find (\<lambda>r. ?K r = k) ys = Some r" by simp
    then have "?K r = k" by (auto simp: find_Some_iff)
    with m show ?thesis by simp
  qed
  show ?thesis
  proof (cases "map_of seen (?K x)")
    case None
    then have step: "dedupDocument x (sc, seen) = (sc, seen @ [(?K x, x)])"
      by (simp add: dedupDocument_def mapHas_def mapSet_def key update_absent)
    have xfresh: "x \<notin> snd ` set seen" using ran [of x] None by auto
    have nokey: "filter (\<lambda>r. ?K r = ?K x) ys = []"
      using None I2 [of "?K x"] by (auto simp: find_None_iff filter_empty_conv)
    show ?thesis
      unfolding step mergedInv_def
    proof (simp only: prod.case, intro allI impI)
      fix k a assume m: "map_of (seen @ [(?K x, x)]) k = Some a"
      show "(filter (\<lambda>r. ?K r = k) (ys @ [x]) = [a] \<longrightarrow> versions (sc a) = versions (st a))
        \<and> (filter (\<lambda>r. ?K r = k) (ys @ [x]) \<noteq> [a] \<longrightarrow>
             distinct (map versionId (versions (sc a)))
           \<and> (\<forall>v \<in> set (versions (sc a)).
                 find (\<lambda>w. versionId w = versionId v) (ingested st (ys @ [x]) k) = Some v))"
      proof (cases "k = ?K x")
        case True
        with m None have ax: "a = x" by (simp add: map_add_def)
        have "filter (\<lambda>r. ?K r = k) (ys @ [x]) = [a]" using True nokey ax by simp
        moreover have "sc x = st x" using I5 xfresh by simp
        ultimately show ?thesis using ax by simp
      next
        case False
        with m have m': "map_of seen k = Some a"
          by (auto simp: map_add_def split: option.splits)
        have f: "filter (\<lambda>r. ?K r = k) (ys @ [x]) = filter (\<lambda>r. ?K r = k) ys"
          using False by auto
        have g: "ingested st (ys @ [x]) k = ingested st ys k"
          using False by (auto simp: ingested_snoc)
        show ?thesis unfolding f g using M1 [OF m'] M2 [OF m'] M3 [OF m'] by blast
      qed
    qed
  next
    case (Some a)
    let ?sc = "sc(a := (sc a)\<lparr>versions := mergeDocumentVersions (versions (sc a)) (versions (sc x))\<rparr>)"
    from Some have step: "dedupDocument x (sc, seen) = (?sc, seen)"
      by (simp add: dedupDocument_def mapHas_def key)
    have fa: "find (\<lambda>r. ?K r = ?K x) ys = Some a" using I2 Some by simp
    then have aK: "?K a = ?K x" and ays: "a \<in> set ys" by (auto simp: find_Some_iff)
    have xa: "sc x = st x" if "x \<noteq> a"
    proof -
      have "x \<notin> snd ` set seen" using ran [of x] Some that by auto
      then show ?thesis by (rule I5)
    qed
    show ?thesis
      unfolding step mergedInv_def
    proof (simp only: prod.case, intro allI impI)
      fix k b assume m: "map_of seen k = Some b"
      show "(filter (\<lambda>r. ?K r = k) (ys @ [x]) = [b] \<longrightarrow> versions (?sc b) = versions (st b))
        \<and> (filter (\<lambda>r. ?K r = k) (ys @ [x]) \<noteq> [b] \<longrightarrow>
             distinct (map versionId (versions (?sc b)))
           \<and> (\<forall>v \<in> set (versions (?sc b)).
                 find (\<lambda>w. versionId w = versionId v) (ingested st (ys @ [x]) k) = Some v))"
      proof (cases "k = ?K x")
        case True
        with m Some have ba: "b = a" by simp
        let ?C = "versions (sc a)" and ?X = "versions (sc x)"
        have two: "filter (\<lambda>r. ?K r = ?K x) (ys @ [x]) \<noteq> [a]"
        proof -
          have "filter (\<lambda>r. ?K r = ?K x) ys \<noteq> []"
            using ays aK by (auto simp: filter_empty_conv)
          then have "length (filter (\<lambda>r. ?K r = ?K x) (ys @ [x])) \<noteq> 1" by simp
          then show ?thesis by auto
        qed
        have g: "ingested st (ys @ [x]) (?K x) = ingested st ys (?K x) @ versions (st x)"
          by (simp add: ingested_snoc)
        have first: "find (\<lambda>w. versionId w = versionId v) (ingested st (ys @ [x]) (?K x)) = Some v"
          if v: "v \<in> set (mergeDocumentVersions ?C ?X)" for v
        proof -
          let ?P = "\<lambda>w. versionId w = versionId v"
          have cx: "find ?P (?C @ ?X) = Some v" using v by (rule mergeDocumentVersions_first)
          show ?thesis
          proof (cases "filter (\<lambda>r. ?K r = ?K x) ys = [a]")
            case True
            then have c: "?C = versions (st a)" by (rule M1 [OF Some])
            have "ingested st ys (?K x) = versions (st a)" by (simp add: ingested_def True)
            moreover have "?X = versions (st x)"
            proof (cases "x = a")
              case True
              then show ?thesis using c by simp
            next
              case False
              then show ?thesis by (simp add: xa)
            qed
            ultimately show ?thesis using cx c by (simp only: g)
          next
            case False
            show ?thesis
            proof (cases "find ?P ?C")
              case (Some w)
              with cx have "w = v" by (simp add: find_app)
              with Some have "v \<in> set ?C" by (auto simp: find_Some_iff)
              then have "find ?P (ingested st ys (?K x)) = Some v"
                by (rule M3 [OF \<open>map_of seen (?K x) = Some a\<close> False])
              then show ?thesis by (simp add: g find_app)
            next
              case None
              with cx have x1: "find ?P ?X = Some v" by (simp add: find_app)
              have "x \<noteq> a"
              proof
                assume "x = a"
                with None x1 show False by simp
              qed
              then have x2: "?X = versions (st x)" by (simp add: xa)
              from None have "versionId v \<notin> versionId ` set ?C"
                unfolding find_None_iff by force
              with I6 [OF \<open>map_of seen (?K x) = Some a\<close>]
              have "versionId v \<notin> versionId ` set (ingested st ys (?K x))"
                by simp
              then have "find ?P (ingested st ys (?K x)) = None"
                unfolding find_None_iff by (metis imageI)
              with x1 x2 show ?thesis by (simp add: g find_app)
            qed
          qed
        qed
        have c1: "filter (\<lambda>r. ?K r = ?K x) (ys @ [x]) = [a] \<longrightarrow>
            versions (?sc a) = versions (st a)"
          using two by blast
        have c2: "distinct (map versionId (versions (?sc a)))"
          by (simp add: mergeDocumentVersions_distinct)
        have c3: "\<forall>v \<in> set (versions (?sc a)).
            find (\<lambda>w. versionId w = versionId v) (ingested st (ys @ [x]) (?K x)) = Some v"
          using first by simp
        show ?thesis unfolding True ba using c1 c2 c3 by blast
      next
        case False
        have "b \<noteq> a"
        proof
          assume "b = a"
          with m I2 [of k] have "find (\<lambda>r. ?K r = k) ys = Some a" by simp
          then have "?K a = k" by (auto simp: find_Some_iff)
          with aK False show False by simp
        qed
        then have e: "?sc b = sc b" by simp
        have f: "filter (\<lambda>r. ?K r = k) (ys @ [x]) = filter (\<lambda>r. ?K r = k) ys"
          using False by auto
        have g: "ingested st (ys @ [x]) k = ingested st ys k"
          using False by (auto simp: ingested_snoc)
        show ?thesis unfolding e f g using M1 [OF m] M2 [OF m] M3 [OF m] by blast
      qed
    qed
  qed
qed

lemma mergedInv_fold: "mergedInv st xs (fold dedupDocument xs (st, []))"
proof (induction xs rule: rev_induct)
  case Nil
  show ?case by (simp add: mergedInv_def)
next
  case (snoc x xs)
  obtain sc seen where e: "fold dedupDocument xs (st, []) = (sc, seen)"
    by (cases "fold dedupDocument xs (st, [])")
  from dedupInv_fold [of st xs] e have "dedupInv st xs (sc, seen)" by simp
  moreover from snoc e have "mergedInv st xs (sc, seen)" by simp
  ultimately show ?case using e by (simp add: mergedInv_step)
qed

lemma createDataRepository_records:
  assumes "createDataRepository st recs docs = (st', repo)"
  shows "allRecords repo = deduplicateRecords recs"
    and "records repo = fold (keepFirst recordKey) recs []"
proof -
  let ?seen = "fold (keepFirst recordKey) recs []"
  have k: "list_all (\<lambda>(k, v). recordKey v = k) ?seen" by (rule keepFirst_fold_keys) simp
  have d: "distinct (map fst ?seen)" by (rule keepFirst_fold_distinct) simp
  have "mapFromEntries (map (\<lambda>r. (recordKey r, r)) (deduplicateRecords recs)) = ?seen"
    using entries_of_seen [OF k] d by (simp add: deduplicateRecords_keepFirst mapFromEntries_distinct)
  with assms show "allRecords repo = deduplicateRecords recs"
    and "records repo = fold (keepFirst recordKey) recs []"
    by (auto simp: createDataRepository_def Let_def split: prod.splits)
qed

lemma createDataRepository_documents:
  assumes "createDataRepository st recs docs = (st', repo)"
  obtains seen where "fold dedupDocument docs (st, []) = (st', seen)"
    and "allDocuments repo = map st' (map snd seen)"
    and "documents repo = map (\<lambda>(k, a). (k, st' a)) seen"
proof -
  obtain sc seen where f: "fold dedupDocument docs (st, []) = (sc, seen)"
    by (cases "fold dedupDocument docs (st, [])")
  from dedupInv_fold [of st docs] f have inv: "dedupInv st docs (sc, seen)" by simp
  then have I1: "\<And>r. (st r)\<lparr>versions := versions (sc r)\<rparr> = sc r"
    and I2: "\<And>k. map_of seen k = find (\<lambda>r. documentKey (st r) = k) docs"
    and I3: "distinct (map fst seen)"
    by (auto simp: dedupInv_def)
  have key: "documentKey (sc r) = documentKey (st r)" for r
  proof -
    have "documentKey ((st r)\<lparr>versions := versions (sc r)\<rparr>) = documentKey (st r)" by simp
    then show ?thesis by (simp only: I1)
  qed
  have "\<And>k a. (k, a) \<in> set seen \<Longrightarrow> documentKey (st a) = k"
  proof -
    fix k a assume "(k, a) \<in> set seen"
    with I3 have "map_of seen k = Some a" by simp
    with I2 show "documentKey (st a) = k" by (auto simp: find_Some_iff)
  qed
  then have e: "map (\<lambda>d. (documentKey d, d)) (map sc (map snd seen)) = map (\<lambda>(k, a). (k, sc a)) seen"
    by (auto simp: key)
  have d: "distinct (map fst (map (\<lambda>(k, a). (k, sc a)) seen))"
    using I3 by (simp add: comp_def case_prod_unfold)
  have "mapFromEntries (map (\<lambda>d. (documentKey d, d)) (map sc (map snd seen)))
      = map (\<lambda>(k, a). (k, sc a)) seen"
    by (simp only: e mapFromEntries_distinct [OF d])
  then have m: "mapFromEntries (map (\<lambda>d. (documentKey d, d)) (map sc (map snd seen)))
      = map (\<lambda>(k, a). (k, sc a)) seen" .
  from assms f have raw: "st' = sc \<and> repo =
      \<lparr> records = mapFromEntries (map (\<lambda>r. (recordKey r, r)) (deduplicateRecords recs)),
        documents = mapFromEntries (map (\<lambda>d. (documentKey d, d)) (map sc (map snd seen))),
        allRecords = deduplicateRecords recs,
        allDocuments = map sc (map snd seen) \<rparr>"
    unfolding createDataRepository_def deduplicateDocuments_def mapValues_def Let_def
    by (auto simp: comp_def)
  then have "st' = sc" "allDocuments repo = map sc (map snd seen)"
     "documents repo = map (\<lambda>(k, a). (k, sc a)) seen"
    by (simp_all only: m DataRepository.simps)
  with f that show thesis by simp
qed


subsection \<open>Example data\<close>

definition mkVersion :: "string \<Rightarrow> string \<Rightarrow> string \<Rightarrow> DocumentVersion" where
  "mkVersion vid num created =
     \<lparr> versionId = vid, versionNumber = num, createdAt = created, v_metadata = None \<rparr>"

definition mkRecord :: "string \<Rightarrow> string \<Rightarrow> RecordLink list \<Rightarrow> DocumentLink list \<Rightarrow> RecordNode" where
  "mkRecord key title lrs lds =
     \<lparr> recordKey = key, r_title = title, r_description = None, r_metadata = None,
       r_linkedRecords = lrs, r_linkedDocuments = lds \<rparr>"

definition mkDocument ::
  "string \<Rightarrow> string \<Rightarrow> DocumentVersion list \<Rightarrow> RecordLink list \<Rightarrow> DocumentLink list \<Rightarrow> Document" where
  "mkDocument key title vs lrs lds =
     \<lparr> documentKey = key, d_title = title, d_description = None, d_metadata = None,
       versions = vs, d_linkedRecords = lrs, d_linkedDocuments = lds \<rparr>"

definition exV1 :: DocumentVersion where "exV1 = mkVersion ''v1'' ''1.0'' ''2024-01-01''"
definition exV2 :: DocumentVersion where "exV2 = mkVersion ''v2'' ''1.1'' ''2024-02-01''"
definition exV3 :: DocumentVersion where "exV3 = mkVersion ''v3'' ''2.0'' ''2024-03-01''"

definition exRecords :: "RecordNode list" where
  "exRecords = [mkRecord ''R1'' ''First'' [] [], mkRecord ''R1'' ''Second'' [] [],
                mkRecord ''R2'' ''Other'' [] []]"

definition exStore :: store where
  "exStore = (\<lambda>r. if r = 0 then mkDocument ''D1'' ''Spec'' [exV1, exV2] [] []
                   else mkDocument ''D1'' ''Spec again'' [exV2, exV3] [] [])"

lemmas ex_defs = mkVersion_def mkRecord_def mkDocument_def exV1_def exV2_def exV3_def
  exRecords_def exStore_def


text \<open>
  C1. Building the repository yields one entity per key. The records exposed have distinct
  keys, every key of the input is kept, and the record found for a key is the first record
  of the input with that key, unchanged. The documents exposed have distinct keys, every
  key of the input is kept, and the document found for a key is the first document of the
  input with that key, with all its fields but \<open>versions\<close> as they were; the version ids of
  its version list are the union of the version ids of all input documents with that key.
  When the key was ingested once the version list is as it came. When it was ingested
  again the version list is the union by version id: no two of its versions have the same
  id, and each is the first version ingested under the key with its id.
\<close>

theorem createDataRepository_deduplicates:
  assumes "createDataRepository st recs docs = (st', repo)"
  shows "distinct (map recordKey (allRecords repo))
    \<and> recordKey ` set (allRecords repo) = recordKey ` set recs
    \<and> (\<forall>r \<in> set (allRecords repo). getRecord repo (recordKey r) = Some r)
    \<and> (\<forall>k. getRecord repo k = find (\<lambda>r. recordKey r = k) recs)
    \<and> distinct (map documentKey (allDocuments repo))
    \<and> documentKey ` set (allDocuments repo) = (\<lambda>d. documentKey (st d)) ` set docs
    \<and> (\<forall>d \<in> set (allDocuments repo). getDocument repo (documentKey d) = Some d)
    \<and> (\<forall>k. getDocument repo k =
          map_option (\<lambda>d. (st d)\<lparr>versions := versions (st' d)\<rparr>)
            (find (\<lambda>d. documentKey (st d) = k) docs))
    \<and> (\<forall>k d. find (\<lambda>d. documentKey (st d) = k) docs = Some d \<longrightarrow>
          versionId ` set (versions (st' d)) =
            (\<Union>r \<in> {r \<in> set docs. documentKey (st r) = k}. versionId ` set (versions (st r))))
    \<and> (\<forall>k d. find (\<lambda>d. documentKey (st d) = k) docs = Some d \<longrightarrow>
          (filter (\<lambda>r. documentKey (st r) = k) docs = [d] \<longrightarrow>
             versions (st' d) = versions (st d))
        \<and> (filter (\<lambda>r. documentKey (st r) = k) docs \<noteq> [d] \<longrightarrow>
             distinct (map versionId (versions (st' d)))
           \<and> (\<forall>v \<in> set (versions (st' d)).
                 find (\<lambda>w. versionId w = versionId v) (ingested st docs k) = Some v)))"
proof -
  let ?rseen = "fold (keepFirst recordKey) recs []"
  note R = createDataRepository_records [OF assms]
  have rk: "list_all (\<lambda>(k, v). recordKey v = k) ?rseen" by (rule keepFirst_fold_keys) simp
  have rd: "distinct (map fst ?rseen)" by (rule keepFirst_fold_distinct) simp
  have rkeys: "map recordKey (map snd ?rseen) = map fst ?rseen"
    using rk by (rule keys_of_seen)
  have c1: "distinct (map recordKey (allRecords repo))"
    unfolding R(1) deduplicateRecords_keepFirst rkeys by (rule rd)
  have "recordKey ` set (allRecords repo) = set (map recordKey (map snd ?rseen))"
    by (simp add: R deduplicateRecords_keepFirst image_image)
  also have "\<dots> = fst ` set ?rseen" by (simp only: rkeys set_map)
  finally have c2: "recordKey ` set (allRecords repo) = recordKey ` set recs"
    by (simp add: keepFirst_fold_keyset)
  have c4: "\<forall>k. getRecord repo k = find (\<lambda>r. recordKey r = k) recs"
    by (simp add: getRecord_def R keepFirst_fold_map_of)
  have c3: "\<forall>r \<in> set (allRecords repo). getRecord repo (recordKey r) = Some r"
  proof
    fix r assume "r \<in> set (allRecords repo)"
    then obtain k where m: "(k, r) \<in> set ?rseen" by (auto simp: R deduplicateRecords_keepFirst)
    with rk have "recordKey r = k" by (auto simp: list_all_iff)
    with m rd show "getRecord repo (recordKey r) = Some r" by (simp add: getRecord_def R)
  qed
  from createDataRepository_documents [OF assms] obtain seen
    where f: "fold dedupDocument docs (st, []) = (st', seen)"
      and ad: "allDocuments repo = map st' (map snd seen)"
      and dd: "documents repo = map (\<lambda>(k, a). (k, st' a)) seen"
    by blast
  from dedupInv_fold [of st docs] f have inv: "dedupInv st docs (st', seen)" by simp
  then have I1: "\<And>r. (st r)\<lparr>versions := versions (st' r)\<rparr> = st' r"
    and I2: "\<And>k. map_of seen k = find (\<lambda>r. documentKey (st r) = k) docs"
    and I3: "distinct (map fst seen)"
    and I6: "\<And>k a. map_of seen k = Some a \<Longrightarrow>
          versionId ` set (versions (st' a)) =
            (\<Union>r\<in>{r \<in> set docs. documentKey (st r) = k}. versionId ` set (versions (st r)))"
    by (auto simp: dedupInv_def)
  have key: "documentKey (st' r) = documentKey (st r)" for r
  proof -
    have "documentKey ((st r)\<lparr>versions := versions (st' r)\<rparr>) = documentKey (st r)" by simp
    then show ?thesis by (simp only: I1)
  qed
  have seenkey: "\<And>k a. (k, a) \<in> set seen \<Longrightarrow> documentKey (st a) = k"
  proof -
    fix k a assume "(k, a) \<in> set seen"
    with I3 have "map_of seen k = Some a" by simp
    with I2 show "documentKey (st a) = k" by (auto simp: find_Some_iff)
  qed
  have dkeys: "map documentKey (allDocuments repo) = map fst seen"
    using seenkey by (auto simp: ad key)
  have c5: "distinct (map documentKey (allDocuments repo))" using I3 by (simp only: dkeys)
  have mo: "map_of (documents repo) k = map_option st' (map_of seen k)" for k
    unfolding dd by (induction seen) auto
  have c8: "\<forall>k. getDocument repo k =
          map_option (\<lambda>d. (st d)\<lparr>versions := versions (st' d)\<rparr>)
            (find (\<lambda>d. documentKey (st d) = k) docs)"
    by (simp add: getDocument_def mo I2 I1)
  have "fst ` set seen = (\<lambda>d. documentKey (st d)) ` set docs"
  proof -
    have "fst ` set seen = dom (map_of seen)" by (simp add: dom_map_of_conv_image_fst)
    also have "\<dots> = {k. find (\<lambda>r. documentKey (st r) = k) docs \<noteq> None}"
      by (auto simp: I2 dom_def)
    also have "\<dots> = (\<lambda>d. documentKey (st d)) ` set docs"
      by (auto simp: find_None_iff)
    finally show ?thesis .
  qed
  then have c6: "documentKey ` set (allDocuments repo) = (\<lambda>d. documentKey (st d)) ` set docs"
    using dkeys by (metis list.set_map)
  have c7: "\<forall>d \<in> set (allDocuments repo). getDocument repo (documentKey d) = Some d"
  proof
    fix d assume "d \<in> set (allDocuments repo)"
    then obtain k a where m: "(k, a) \<in> set seen" and d: "d = st' a" by (auto simp: ad)
    with seenkey have "documentKey d = k" by (simp add: key)
    moreover from m I3 have "map_of seen k = Some a" by simp
    ultimately show "getDocument repo (documentKey d) = Some d"
      by (simp add: getDocument_def mo d)
  qed
  have c9: "\<forall>k d. find (\<lambda>d. documentKey (st d) = k) docs = Some d \<longrightarrow>
          versionId ` set (versions (st' d)) =
            (\<Union>r \<in> {r \<in> set docs. documentKey (st r) = k}. versionId ` set (versions (st r)))"
    using I6 by (simp add: I2)
  from mergedInv_fold [of st docs] f have "mergedInv st docs (st', seen)" by simp
  then have c10: "\<forall>k d. find (\<lambda>d. documentKey (st d) = k) docs = Some d \<longrightarrow>
          (filter (\<lambda>r. documentKey (st r) = k) docs = [d] \<longrightarrow>
             versions (st' d) = versions (st d))
        \<and> (filter (\<lambda>r. documentKey (st r) = k) docs \<noteq> [d] \<longrightarrow>
             distinct (map versionId (versions (st' d)))
           \<and> (\<forall>v \<in> set (versions (st' d)).
                 find (\<lambda>w. versionId w = versionId v) (ingested st docs k) = Some v))"
    unfolding mergedInv_def by (simp only: prod.case I2)
  from c1 c2 c3 c4 c5 c6 c7 c8 c9 c10 show ?thesis by (intro conjI)
qed

theorem createDataRepository_deduplicates_witness:
  "\<exists>st' repo. createDataRepository exStore exRecords [0, 1] = (st', repo)
     \<and> map r_title (allRecords repo) = [''First'', ''Other'']
     \<and> distinct (map recordKey (allRecords repo))
     \<and> getRecord repo ''R1'' = Some (mkRecord ''R1'' ''First'' [] [])
     \<and> distinct (map documentKey (allDocuments repo))
     \<and> getDocument repo ''D1'' = Some (mkDocument ''D1'' ''Spec'' (versions (st' 0)) [] [])
     \<and> versionId ` set (versions (st' 0)) = {''v1'', ''v2'', ''v3''}
     \<and> filter (\<lambda>r. documentKey (exStore r) = ''D1'') [0, 1] \<noteq> [0]
     \<and> ingested exStore [0, 1] ''D1'' = [exV1, exV2, exV2, exV3]
     \<and> distinct (map versionId (versions (st' 0)))
     \<and> (\<forall>v \<in> set (versions (st' 0)).
           find (\<lambda>w. versionId w = versionId v) [exV1, exV2, exV2, exV3] = Some v)
     \<and> versions (st' 0) = [exV3, exV2, exV1]
     \<and> filter (\<lambda>r. documentKey (exStore r) = ''D1'') [0] = [0]
     \<and> versions (fst (createDataRepository exStore exRecords [0]) 0) = [exV1, exV2]"
proof -
  obtain st' repo where e: "createDataRepository exStore exRecords [0, 1] = (st', repo)"
    by fastforce
  note T = createDataRepository_deduplicates [OF e]
  note T1 = T [THEN conjunct1]
  note T4 = T [THEN conjunct2, THEN conjunct2, THEN conjunct2, THEN conjunct1]
  note T5 = T [THEN conjunct2, THEN conjunct2, THEN conjunct2, THEN conjunct2, THEN conjunct1]
  note T8 = T [THEN conjunct2, THEN conjunct2, THEN conjunct2, THEN conjunct2, THEN conjunct2,
      THEN conjunct2, THEN conjunct2, THEN conjunct1]
  note T9 = T [THEN conjunct2, THEN conjunct2, THEN conjunct2, THEN conjunct2, THEN conjunct2,
      THEN conjunct2, THEN conjunct2, THEN conjunct2, THEN conjunct1]
  note T10 = T [THEN conjunct2, THEN conjunct2, THEN conjunct2, THEN conjunct2, THEN conjunct2,
      THEN conjunct2, THEN conjunct2, THEN conjunct2, THEN conjunct2]
  have "allRecords repo = deduplicateRecords exRecords"
    using e by (auto simp: createDataRepository_def Let_def split: prod.splits)
  then have a: "map r_title (allRecords repo) = [''First'', ''Other'']"
    by (simp add: deduplicateRecords_def mapHas_def mapSet_def mapValues_def ex_defs)
  have "getRecord repo ''R1'' = find (\<lambda>r. recordKey r = ''R1'') exRecords"
    using T4 by (rule spec)
  then have d: "getRecord repo ''R1'' = Some (mkRecord ''R1'' ''First'' [] [])"
    by (simp add: ex_defs)
  have "getDocument repo ''D1'' =
          map_option (\<lambda>d. (exStore d)\<lparr>versions := versions (st' d)\<rparr>)
            (find (\<lambda>d. documentKey (exStore d) = ''D1'') [0, 1])"
    using T8 by (rule spec)
  then have f: "getDocument repo ''D1'' = Some (mkDocument ''D1'' ''Spec'' (versions (st' 0)) [] [])"
    by (simp add: ex_defs)
  have fnd: "find (\<lambda>d. documentKey (exStore d) = ''D1'') [0, 1] = Some 0"
    by (simp add: ex_defs)
  have "versionId ` set (versions (st' 0)) =
            (\<Union>r \<in> {r \<in> set [0, 1]. documentKey (exStore r) = ''D1''}. versionId ` set (versions (exStore r)))"
    using T9 [rule_format, OF fnd] .
  moreover have "{r \<in> set [0, 1::nat]. documentKey (exStore r) = ''D1''} = {0, 1}"
    by (auto simp: ex_defs)
  ultimately have g: "versionId ` set (versions (st' 0)) = {''v1'', ''v2'', ''v3''}"
    by (auto simp: ex_defs)
  have two: "filter (\<lambda>r. documentKey (exStore r) = ''D1'') [0, 1::nat] \<noteq> [0]"
    by (simp add: ex_defs)
  have ing: "ingested exStore [0, 1] ''D1'' = [exV1, exV2, exV2, exV3]"
    by (simp add: ingested_def ex_defs)
  note U = T10 [rule_format, OF fnd, THEN conjunct2, rule_format, OF two]
  have h: "distinct (map versionId (versions (st' 0)))" using U by (rule conjunct1)
  have i: "\<forall>v \<in> set (versions (st' 0)).
           find (\<lambda>w. versionId w = versionId v) [exV1, exV2, exV2, exV3] = Some v"
    using U [THEN conjunct2] by (simp only: ing)
  have "st' = fst (createDataRepository exStore exRecords [0, 1])" by (simp only: e fst_conv)
  then have j: "versions (st' 0) = [exV3, exV2, exV1]"
    by (simp add: createDataRepository_def deduplicateDocuments_def dedupDocument_def
        mergeDocumentVersions_def sortBy_def localeCompare_def sameFormat_def stampFormat_def
        isStampChar_def isDigit_def mapHas_def mapSet_def mapValues_def Let_def ex_defs)
  have one: "filter (\<lambda>r. documentKey (exStore r) = ''D1'') [0::nat] = [0]"
    by (simp add: ex_defs)
  have fnd1: "find (\<lambda>d. documentKey (exStore d) = ''D1'') [0::nat] = Some 0"
    by (simp add: ex_defs)
  obtain st1 repo1 where e1: "createDataRepository exStore exRecords [0] = (st1, repo1)"
    by fastforce
  note S = createDataRepository_deduplicates [OF e1]
  note S10 = S [THEN conjunct2, THEN conjunct2, THEN conjunct2, THEN conjunct2, THEN conjunct2,
      THEN conjunct2, THEN conjunct2, THEN conjunct2, THEN conjunct2]
  have "versions (st1 0) = versions (exStore 0)"
    using S10 [rule_format, OF fnd1, THEN conjunct1, rule_format, OF one] .
  moreover have "versions (exStore 0) = [exV1, exV2]" by (simp add: exStore_def mkDocument_def)
  ultimately have k: "versions (fst (createDataRepository exStore exRecords [0]) 0) = [exV1, exV2]"
    by (simp only: e1 fst_conv)
  show ?thesis
    apply (rule exI [of _ st'], rule exI [of _ repo])
    using e a T1 d T5 f g two ing h i j one k by (intro conjI)
qed


text \<open>
  C9. Building the repository assigns to a document of the input: of two input documents
  with the key D1, the first one holds the merged version list afterwards.
\<close>

theorem createDataRepository_assigns_to_input:
  "versions (exStore 0) = [exV1, exV2]
   \<and> versions (fst (createDataRepository exStore exRecords [0, 1]) 0) = [exV3, exV2, exV1]"
  by (simp add: createDataRepository_def deduplicateDocuments_def dedupDocument_def
        mergeDocumentVersions_def sortBy_def localeCompare_def sameFormat_def stampFormat_def
        isStampChar_def isDigit_def mapHas_def mapSet_def mapValues_def Let_def ex_defs)

section \<open>Version ordering\<close>

text \<open>
  What the comparator of \<open>sortVersions\<close> compares: \<open>part v i\<close> is \<open>parts[i] || 0\<close> of the
  version number of \<open>v\<close>. \<open>partsBelow a b\<close> says that the first part in which \<open>a\<close> and \<open>b\<close> differ
  is the smaller in \<open>a\<close>, \<open>partsEqual\<close> that no part differs.
\<close>

definition part :: "DocumentVersion \<Rightarrow> nat \<Rightarrow> nat" where
  "part v i = partOrZero (parseVersion (versionNumber v)) i"

definition partsBelow :: "DocumentVersion \<Rightarrow> DocumentVersion \<Rightarrow> bool" where
  "partsBelow a b =
     (\<exists>d. (\<forall>j<d. part a j = part b j) \<and> part a d < part b d)"

definition partsEqual :: "DocumentVersion \<Rightarrow> DocumentVersion \<Rightarrow> bool" where
  "partsEqual a b = (\<forall>j. part a j = part b j)"

lemma partOrZero_beyond: "length ps \<le> i \<Longrightarrow> partOrZero ps i = 0"
  by (simp add: partOrZero_def)

lemma compareParts_zero:
  "compareParts ps qs i = 0 \<longleftrightarrow> (\<forall>j\<ge>i. partOrZero ps j = partOrZero qs j)"
proof (induction ps qs i rule: compareParts.induct)
  case (1 ps qs i)
  show ?case
  proof (cases "i < max (length ps) (length qs)")
    case False
    then have "\<forall>j\<ge>i. partOrZero ps j = 0 \<and> partOrZero qs j = 0"
      by (simp add: partOrZero_beyond)
    with False show ?thesis by (simp add: compareParts.simps [of ps qs i])
  next
    case True
    show ?thesis
    proof (cases "partOrZero ps i = partOrZero qs i")
      case False
      with True show ?thesis by (auto simp: compareParts.simps [of ps qs i])
    next
      case eq: True
      have "(\<forall>j\<ge>i. partOrZero ps j = partOrZero qs j)
            \<longleftrightarrow> (\<forall>j\<ge>i + 1. partOrZero ps j = partOrZero qs j)"
        using eq by (metis Suc_eq_plus1 Suc_leI le_eq_less_or_eq le_add1 le_trans)
      with True eq 1 show ?thesis by (simp add: compareParts.simps [of ps qs i])
    qed
  qed
qed

lemma compareParts_pos:
  "compareParts ps qs i > 0 \<longleftrightarrow>
     (\<exists>d\<ge>i. (\<forall>j. i \<le> j \<and> j < d \<longrightarrow> partOrZero ps j = partOrZero qs j)
            \<and> partOrZero ps d < partOrZero qs d)"
proof (induction ps qs i rule: compareParts.induct)
  case (1 ps qs i)
  show ?case
  proof (cases "i < max (length ps) (length qs)")
    case False
    then have "\<forall>j\<ge>i. partOrZero ps j = 0 \<and> partOrZero qs j = 0"
      by (simp add: partOrZero_beyond)
    with False show ?thesis by (auto simp add: compareParts.simps [of ps qs i])
  next
    case True
    show ?thesis
    proof (cases "partOrZero ps i = partOrZero qs i")
      case False
      have "(\<exists>d\<ge>i. (\<forall>j. i \<le> j \<and> j < d \<longrightarrow> partOrZero ps j = partOrZero qs j)
            \<and> partOrZero ps d < partOrZero qs d) \<longleftrightarrow> partOrZero ps i < partOrZero qs i"
      proof
        assume "\<exists>d\<ge>i. (\<forall>j. i \<le> j \<and> j < d \<longrightarrow> partOrZero ps j = partOrZero qs j)
            \<and> partOrZero ps d < partOrZero qs d"
        then obtain d where d: "d \<ge> i" "\<forall>j. i \<le> j \<and> j < d \<longrightarrow> partOrZero ps j = partOrZero qs j"
          "partOrZero ps d < partOrZero qs d" by blast
        with False have "d = i" by (metis le_eq_less_or_eq order_refl)
        with d show "partOrZero ps i < partOrZero qs i" by simp
      next
        assume "partOrZero ps i < partOrZero qs i"
        then show "\<exists>d\<ge>i. (\<forall>j. i \<le> j \<and> j < d \<longrightarrow> partOrZero ps j = partOrZero qs j)
            \<and> partOrZero ps d < partOrZero qs d"
          by (intro exI [of _ i]) simp
      qed
      with True False show ?thesis by (auto simp: compareParts.simps [of ps qs i])
    next
      case eq: True
      have "(\<exists>d\<ge>i. (\<forall>j. i \<le> j \<and> j < d \<longrightarrow> partOrZero ps j = partOrZero qs j)
            \<and> partOrZero ps d < partOrZero qs d)
          \<longleftrightarrow> (\<exists>d\<ge>i + 1. (\<forall>j. i + 1 \<le> j \<and> j < d \<longrightarrow> partOrZero ps j = partOrZero qs j)
            \<and> partOrZero ps d < partOrZero qs d)" (is "?L \<longleftrightarrow> ?R")
      proof
        assume ?L
        then obtain d where d: "d \<ge> i" "\<forall>j. i \<le> j \<and> j < d \<longrightarrow> partOrZero ps j = partOrZero qs j"
          "partOrZero ps d < partOrZero qs d" by blast
        with eq have "d \<noteq> i" by auto
        with d have "d \<ge> i + 1" by simp
        with d show ?R by (intro exI [of _ d]) simp
      next
        assume ?R
        then obtain d where d: "d \<ge> i + 1"
          "\<forall>j. i + 1 \<le> j \<and> j < d \<longrightarrow> partOrZero ps j = partOrZero qs j"
          "partOrZero ps d < partOrZero qs d" by blast
        have "\<forall>j. i \<le> j \<and> j < d \<longrightarrow> partOrZero ps j = partOrZero qs j"
        proof (intro allI impI)
          fix j assume "i \<le> j \<and> j < d"
          then show "partOrZero ps j = partOrZero qs j"
            using eq d(2) by (cases "j = i") auto
        qed
        with d show ?L by (intro exI [of _ d]) simp
      qed
      with True eq 1 show ?thesis by (simp add: compareParts.simps [of ps qs i])
    qed
  qed
qed

lemma compareParts_swap: "compareParts qs ps i = - compareParts ps qs i"
proof (induction ps qs i rule: compareParts.induct)
  case (1 ps qs i)
  show ?case
  proof (cases "i < max (length ps) (length qs)")
    case False
    then show ?thesis
      by (simp add: compareParts.simps [of ps qs i] compareParts.simps [of qs ps i] max.commute)
  next
    case True
    then show ?thesis using 1
      by (simp add: compareParts.simps [of ps qs i] compareParts.simps [of qs ps i] max.commute)
  qed
qed

lemma compareVersions_pos: "compareVersions a b > 0 \<longleftrightarrow> partsBelow a b"
  by (simp add: compareVersions_def compareParts_pos partsBelow_def part_def)

lemma compareVersions_zero: "compareVersions a b = 0 \<longleftrightarrow> partsEqual a b"
  by (simp add: compareVersions_def compareParts_zero partsEqual_def part_def)

lemma compareVersions_neg: "compareVersions a b < 0 \<longleftrightarrow> partsBelow b a"
proof -
  have "compareVersions a b = - compareVersions b a"
    unfolding compareVersions_def by (rule compareParts_swap)
  then have "compareVersions a b < 0 \<longleftrightarrow> compareVersions b a > 0" by linarith
  then show ?thesis by (simp only: compareVersions_pos)
qed

lemma partsBelow_trans:
  assumes "partsBelow a b" "partsBelow b c"
  shows "partsBelow a c"
proof -
  from assms obtain d e where d: "\<forall>j<d. part a j = part b j" "part a d < part b d"
    and e: "\<forall>j<e. part b j = part c j" "part b e < part c e"
    by (auto simp: partsBelow_def)
  have "(\<forall>j<min d e. part a j = part c j) \<and> part a (min d e) < part c (min d e)"
  proof (cases d e rule: linorder_cases)
    case less
    with d e show ?thesis by (simp add: min_def)
  next
    case equal
    with d e show ?thesis by (auto simp: min_def)
  next
    case greater
    with d e show ?thesis by (simp add: min_def)
  qed
  then show ?thesis unfolding partsBelow_def by blast
qed

lemma partsEqual_trans:
  "partsEqual a b \<Longrightarrow> partsEqual b c \<Longrightarrow> partsEqual a c"
  by (simp add: partsEqual_def)

lemma compareVersions_le:
  "compareVersions a b \<le> 0 \<longleftrightarrow> partsBelow b a \<or> partsEqual a b"
proof -
  have "compareVersions a b \<le> 0 \<longleftrightarrow> compareVersions a b < 0 \<or> compareVersions a b = 0"
    by (rule order.order_iff_strict)
  then show ?thesis by (simp only: compareVersions_neg compareVersions_zero)
qed

lemma compareVersions_trans:
  assumes "compareVersions a b \<le> 0" "compareVersions b c \<le> 0"
  shows "compareVersions a c \<le> 0"
proof -
  from assms have ab: "partsBelow b a \<or> partsEqual a b"
    and bc: "partsBelow c b \<or> partsEqual b c"
    by (simp_all only: compareVersions_le)
  from ab bc have "partsBelow c a \<or> partsEqual a c"
  proof (elim disjE)
    assume "partsBelow b a" "partsBelow c b"
    then show ?thesis using partsBelow_trans by blast
  next
    assume "partsBelow b a" "partsEqual b c"
    then have "partsBelow c a"
      by (simp add: partsEqual_def partsBelow_def)
    then show ?thesis ..
  next
    assume "partsEqual a b" "partsBelow c b"
    then have "partsBelow c a"
      by (simp add: partsEqual_def partsBelow_def)
    then show ?thesis ..
  next
    assume "partsEqual a b" "partsEqual b c"
    then show ?thesis using partsEqual_trans by blast
  qed
  then show ?thesis by (simp only: compareVersions_le)
qed

lemma compareVersions_anti: "compareVersions a b > 0 \<Longrightarrow> compareVersions b a < 0"
  by (simp add: compareVersions_pos compareVersions_neg)

lemma sorted_insertBy:
  assumes anti: "\<And>a b. cmp a b > 0 \<Longrightarrow> cmp b a < 0"
    and trans: "\<And>a b c. cmp a b \<le> 0 \<Longrightarrow> cmp b c \<le> 0 \<Longrightarrow> cmp a c \<le> 0"
    and sorted: "sorted_wrt (\<lambda>a b. cmp a b < 0 \<or> (cmp a b = 0 \<and> R a b)) ws"
    and later: "\<forall>w\<in>set ws. R v w"
  shows "sorted_wrt (\<lambda>a b. cmp a b < 0 \<or> (cmp a b = 0 \<and> R a b)) (insertBy cmp v ws)"
  using sorted later
proof (induction ws)
  case Nil
  show ?case by simp
next
  case (Cons w ws)
  show ?case
  proof (cases "cmp v w \<le> 0")
    case True
    have "\<forall>z\<in>set (w # ws). cmp v z < 0 \<or> (cmp v z = 0 \<and> R v z)"
    proof
      fix z assume z: "z \<in> set (w # ws)"
      have "cmp w z \<le> 0 \<or> z = w" using Cons.prems(1) z by auto
      then have "cmp v z \<le> 0" using True trans by blast
      then show "cmp v z < 0 \<or> (cmp v z = 0 \<and> R v z)"
        using Cons.prems(2) z by (auto simp: order.order_iff_strict)
    qed
    with True Cons.prems(1) show ?thesis by simp
  next
    case False
    then have "cmp w v < 0" using anti by (simp add: not_le)
    moreover have "sorted_wrt (\<lambda>a b. cmp a b < 0 \<or> (cmp a b = 0 \<and> R a b)) (insertBy cmp v ws)"
      using Cons by simp
    ultimately show ?thesis using False Cons.prems(1) by auto
  qed
qed

lemma sorted_sortBy:
  assumes anti: "\<And>a b. cmp a b > 0 \<Longrightarrow> cmp b a < 0"
    and trans: "\<And>a b c. cmp a b \<le> 0 \<Longrightarrow> cmp b c \<le> 0 \<Longrightarrow> cmp a c \<le> 0"
    and input: "sorted_wrt R vs"
  shows "sorted_wrt (\<lambda>a b. cmp a b < 0 \<or> (cmp a b = 0 \<and> R a b)) (sortBy cmp vs)"
  using input
proof (induction vs)
  case Nil
  show ?case by (simp add: sortBy_def)
next
  case (Cons v vs)
  then have "sorted_wrt (\<lambda>a b. cmp a b < 0 \<or> (cmp a b = 0 \<and> R a b)) (sortBy cmp vs)"
    and "\<forall>w\<in>set (sortBy cmp vs). R v w" by simp_all
  then have "sorted_wrt (\<lambda>a b. cmp a b < 0 \<or> (cmp a b = 0 \<and> R a b))
      (insertBy cmp v (sortBy cmp vs))"
    using sorted_insertBy [of cmp R "sortBy cmp vs" v] anti trans by blast
  then show ?case by (simp add: sortBy_def)
qed

lemma sortVersions_sorted_parts:
  assumes "sorted_wrt R vs"
  shows "sorted_wrt (\<lambda>a b. partsBelow b a \<or> (partsEqual a b \<and> R a b))
           (sortVersions vs)"
proof -
  have "sorted_wrt (\<lambda>a b. compareVersions a b < 0 \<or> (compareVersions a b = 0 \<and> R a b))
      (sortBy compareVersions vs)"
    using compareVersions_anti compareVersions_trans assms by (rule sorted_sortBy)
  then show ?thesis by (simp only: sortVersions_def compareVersions_neg compareVersions_zero)
qed

subsection \<open>The order of the specification\<close>

text \<open>
  The order of the specification, in its words: the dot-separated numeric segments of two
  version numbers are compared from the left, a missing segment counting as 0. The segments
  are read here on their own, not by the code: \<open>dotSegments\<close> collects the characters up to
  each dot, and \<open>decimalValue\<close> is the number that a string of digits writes, its last digit
  counting once and every digit before it ten times as much as the one after. \<open>segment v i\<close>
  is the value of the \<open>i\<close>-th segment of the version number of \<open>v\<close>, 0 when there is none;
  \<open>semanticallyBelow a b\<close> says that \<open>a\<close> is the lower version, \<open>semanticallyEqual\<close> that no
  segment differs.
\<close>

fun segmentsFrom :: "string \<Rightarrow> string \<Rightarrow> string list" where
  "segmentsFrom current [] = [rev current]"
| "segmentsFrom current (c # cs) =
     (if c = CHR ''.'' then rev current # segmentsFrom [] cs
      else segmentsFrom (c # current) cs)"

definition dotSegments :: "string \<Rightarrow> string list" where
  "dotSegments s = segmentsFrom [] s"

definition digitValue :: "char \<Rightarrow> nat" where
  "digitValue c = length (takeWhile (\<lambda>d. d \<noteq> c) ''0123456789'')"

fun valueFromRight :: "string \<Rightarrow> nat" where
  "valueFromRight [] = 0"
| "valueFromRight (c # cs) = digitValue c + 10 * valueFromRight cs"

definition decimalValue :: "string \<Rightarrow> nat" where
  "decimalValue s = valueFromRight (rev s)"

definition segment :: "DocumentVersion \<Rightarrow> nat \<Rightarrow> nat" where
  "segment v i =
     (if i < length (dotSegments (versionNumber v))
      then decimalValue (dotSegments (versionNumber v) ! i) else 0)"

definition semanticallyBelow :: "DocumentVersion \<Rightarrow> DocumentVersion \<Rightarrow> bool" where
  "semanticallyBelow a b =
     (\<exists>d. (\<forall>j<d. segment a j = segment b j) \<and> segment a d < segment b d)"

definition semanticallyEqual :: "DocumentVersion \<Rightarrow> DocumentVersion \<Rightarrow> bool" where
  "semanticallyEqual a b = (\<forall>j. segment a j = segment b j)"

text \<open>
  The version numbers the order speaks of: every segment is a string of decimal digits, at
  most 15 of them. The time stamps its tie-break speaks of: those of one format.
\<close>

definition plainVersion :: "DocumentVersion \<Rightarrow> bool" where
  "plainVersion v =
     list_all (\<lambda>s. list_all isDigit s \<and> length s \<le> 15) (dotSegments (versionNumber v))"

definition oneFormat :: "DocumentVersion list \<Rightarrow> bool" where
  "oneFormat vs =
     list_all (\<lambda>a. list_all (\<lambda>b. sameFormat (createdAt a) (createdAt b)) vs) vs"

text \<open>On such version numbers the code reads the segments of the specification.\<close>

lemma splitOn_not_Nil: "splitOn c s \<noteq> []"
  by (induction s) (auto split: list.splits)

lemma segmentsFrom_splitOn:
  "segmentsFrom current s =
     (rev current @ hd (splitOn (CHR ''.'') s)) # tl (splitOn (CHR ''.'') s)"
proof (induction s arbitrary: current)
  case Nil
  show ?case by simp
next
  case (Cons c cs)
  show ?case
  proof (cases "c = CHR ''.''")
    case True
    have "segmentsFrom [] cs = splitOn (CHR ''.'') cs"
      using Cons [of "[]"] splitOn_not_Nil [of "CHR ''.''" cs] by simp
    with True show ?thesis by simp
  next
    case False
    obtain x xs where x: "splitOn (CHR ''.'') cs = x # xs"
      using splitOn_not_Nil [of "CHR ''.''" cs] by (cases "splitOn (CHR ''.'') cs") auto
    with False Cons [of "c # current"] show ?thesis by simp
  qed
qed

lemma dotSegments_splitOn: "dotSegments s = splitOn (CHR ''.'') s"
  using segmentsFrom_splitOn [of "[]" s] splitOn_not_Nil [of "CHR ''.''" s]
  by (simp add: dotSegments_def)

lemma digitValue_digit:
  assumes "isDigit c"
  shows "digitValue c = of_char c - 48"
proof -
  from assms have "c \<in> set ''0123456789''" by (simp only: isDigit_def)
  then show ?thesis
    unfolding list.set by (elim insertE emptyE) (simp_all add: digitValue_def)
qed

lemma decimalValue_snoc: "decimalValue (s @ [c]) = digitValue c + 10 * decimalValue s"
  by (simp add: decimalValue_def)

lemma foldl_decimalValue:
  "list_all isDigit s \<Longrightarrow> foldl (\<lambda>n c. 10 * n + (of_char c - 48)) 0 s = decimalValue s"
proof (induction s rule: rev_induct)
  case Nil
  show ?case by (simp add: decimalValue_def)
next
  case (snoc c s)
  then show ?case by (simp add: decimalValue_snoc digitValue_digit)
qed

lemma jsNumber_plain:
  "list_all isDigit s \<Longrightarrow> length s \<le> 15 \<Longrightarrow> jsNumber s = Some (decimalValue s)"
  by (simp add: jsNumber_def foldl_decimalValue)

lemma part_segment:
  assumes "plainVersion v"
  shows "part v i = segment v i"
proof (cases "i < length (dotSegments (versionNumber v))")
  case True
  with assms have "list_all isDigit (dotSegments (versionNumber v) ! i)"
    and "length (dotSegments (versionNumber v) ! i) \<le> 15"
    by (simp_all add: plainVersion_def list_all_length)
  then have "jsNumber (dotSegments (versionNumber v) ! i)
      = Some (decimalValue (dotSegments (versionNumber v) ! i))"
    by (rule jsNumber_plain)
  with True show ?thesis
    by (simp add: part_def segment_def partOrZero_def parseVersion_def
        dotSegments_splitOn [symmetric])
next
  case False
  then show ?thesis
    by (simp add: part_def segment_def partOrZero_def parseVersion_def
        dotSegments_splitOn [symmetric])
qed

lemma semanticallyBelow_parts:
  "plainVersion a \<Longrightarrow> plainVersion b \<Longrightarrow> semanticallyBelow a b \<longleftrightarrow> partsBelow a b"
  by (simp add: semanticallyBelow_def partsBelow_def part_segment)

lemma semanticallyEqual_parts:
  "plainVersion a \<Longrightarrow> plainVersion b \<Longrightarrow> semanticallyEqual a b \<longleftrightarrow> partsEqual a b"
  by (simp add: semanticallyEqual_def partsEqual_def part_segment)

lemma compareVersions_semantic:
  assumes "plainVersion a" "plainVersion b"
  shows "compareVersions a b < 0 \<longleftrightarrow> semanticallyBelow b a"
    and "compareVersions a b = 0 \<longleftrightarrow> semanticallyEqual a b"
    and "compareVersions a b > 0 \<longleftrightarrow> semanticallyBelow a b"
  using assms
  by (simp_all add: compareVersions_neg compareVersions_zero compareVersions_pos
      semanticallyBelow_parts semanticallyEqual_parts)

lemma sortVersions_sorted_ties:
  assumes plain: "list_all plainVersion vs" and input: "sorted_wrt R vs"
  shows "sorted_wrt (\<lambda>a b. semanticallyBelow b a \<or> (semanticallyEqual a b \<and> R a b))
           (sortVersions vs)"
proof -
  have p: "plainVersion a" if "a \<in> set (sortVersions vs)" for a
    using plain that by (simp add: sortVersions_def list_all_iff)
  have "sorted_wrt (\<lambda>a b. partsBelow b a \<or> (partsEqual a b \<and> R a b)) (sortVersions vs)"
    using input by (rule sortVersions_sorted_parts)
  then show ?thesis
  proof (rule sorted_wrt_mono_rel [rotated])
    fix a b
    assume "a \<in> set (sortVersions vs)" "b \<in> set (sortVersions vs)"
      and "partsBelow b a \<or> (partsEqual a b \<and> R a b)"
    then show "semanticallyBelow b a \<or> (semanticallyEqual a b \<and> R a b)"
      by (simp add: p semanticallyBelow_parts semanticallyEqual_parts)
  qed
qed

text \<open>On time stamps of one format \<open>localeCompare\<close> is the order of the characters.\<close>

definition lexicalCompare :: "string \<Rightarrow> string \<Rightarrow> int" where
  "lexicalCompare a b = (if a < b then - 1 else if a = b then 0 else 1)"

lemma localeCompare_sameFormat: "sameFormat a b \<Longrightarrow> localeCompare a b = lexicalCompare a b"
  by (simp add: localeCompare_def lexicalCompare_def)

lemma insertBy_cong:
  "(\<And>w. w \<in> set ws \<Longrightarrow> cmp v w = cmp' v w) \<Longrightarrow> insertBy cmp v ws = insertBy cmp' v ws"
  by (induction ws) simp_all

lemma sortBy_cong:
  "(\<And>a b. a \<in> set vs \<Longrightarrow> b \<in> set vs \<Longrightarrow> cmp a b = cmp' a b) \<Longrightarrow>
   sortBy cmp vs = sortBy cmp' vs"
proof (induction vs)
  case Nil
  show ?case by (simp add: sortBy_def)
next
  case (Cons v vs)
  have "sortBy cmp vs = sortBy cmp' vs" using Cons.prems by (intro Cons.IH) simp_all
  moreover have "insertBy cmp v (sortBy cmp' vs) = insertBy cmp' v (sortBy cmp' vs)"
    using Cons.prems by (intro insertBy_cong) simp
  ultimately show ?case by (simp add: sortBy_def)
qed

lemma keepFirst_values_subset:
  "snd ` set (fold (keepFirst key) vs seen) \<subseteq> snd ` set seen \<union> set vs"
proof (induction vs arbitrary: seen)
  case Nil
  show ?case by simp
next
  case (Cons v vs)
  have "snd ` set (keepFirst key v seen) \<subseteq> snd ` set seen \<union> {v}"
    by (auto simp: keepFirst_def mapHas_def mapSet_def update_absent)
  with Cons [of "keepFirst key v seen"] show ?case by auto
qed

lemma mergeDocumentVersions_subset:
  "set (mergeDocumentVersions versions1 versions2) \<subseteq> set versions1 \<union> set versions2"
  using keepFirst_values_subset [of versionId "versions1 @ versions2" "[]"]
  by (simp add: mergeDocumentVersions_keepFirst)

lemma mergeDocumentVersions_sorted:
  assumes "oneFormat (versions1 @ versions2)"
  shows "sorted_wrt (\<lambda>a b. createdAt b \<le> createdAt a)
           (mergeDocumentVersions versions1 versions2)"
proof -
  let ?cmp = "\<lambda>a b. localeCompare (createdAt b) (createdAt a)"
  let ?lex = "\<lambda>a b. lexicalCompare (createdAt b) (createdAt a)"
  let ?vs = "map snd (fold (keepFirst versionId) (versions1 @ versions2) [])"
  have sub: "set ?vs \<subseteq> set (versions1 @ versions2)"
    using keepFirst_values_subset [of versionId "versions1 @ versions2" "[]"] by simp
  have c: "sortBy ?cmp ?vs = sortBy ?lex ?vs"
  proof (rule sortBy_cong)
    fix a b assume "a \<in> set ?vs" "b \<in> set ?vs"
    with sub have "a \<in> set (versions1 @ versions2)" "b \<in> set (versions1 @ versions2)"
      by blast+
    with assms have "sameFormat (createdAt b) (createdAt a)"
      by (simp add: oneFormat_def list_all_iff)
    then show "?cmp a b = ?lex a b" by (rule localeCompare_sameFormat)
  qed
  have s: "sorted_wrt (\<lambda>a b. ?lex a b < 0 \<or> (?lex a b = 0 \<and> True)) (sortBy ?lex ?vs)"
  proof (rule sorted_sortBy)
    show "\<And>a b. ?lex a b > 0 \<Longrightarrow> ?lex b a < 0"
      by (auto simp: lexicalCompare_def split: if_splits)
    show "\<And>a b c. ?lex a b \<le> 0 \<Longrightarrow> ?lex b c \<le> 0 \<Longrightarrow> ?lex a c \<le> 0"
      by (auto simp: lexicalCompare_def split: if_splits)
    show "sorted_wrt (\<lambda>_ _. True) ?vs" by (simp add: sorted_wrt_true)
  qed
  have eq: "(\<lambda>a b. ?lex a b < 0 \<or> (?lex a b = 0 \<and> True))
      = (\<lambda>a b. createdAt b \<le> createdAt a)"
    by (intro ext) (auto simp: lexicalCompare_def)
  show ?thesis using s by (simp only: eq c mergeDocumentVersions_keepFirst)
qed

text \<open>
  The order claimed for version lists: descending semantic order, ties by descending
  \<open>createdAt\<close> in the order of the characters.
\<close>

definition versionOrder :: "DocumentVersion \<Rightarrow> DocumentVersion \<Rightarrow> bool" where
  "versionOrder a b =
     (semanticallyBelow b a \<or> (semanticallyEqual a b \<and> createdAt b \<le> createdAt a))"

lemma versionOrder_code:
  assumes "plainVersion a" "plainVersion b"
  shows "versionOrder a b \<longleftrightarrow>
     compareVersions a b < 0 \<or> (compareVersions a b = 0 \<and> createdAt b \<le> createdAt a)"
  by (simp only: versionOrder_def compareVersions_semantic [OF assms])

definition exVa :: DocumentVersion where "exVa = mkVersion ''a'' ''1.0'' ''2024-01-01''"
definition exVb :: DocumentVersion where "exVb = mkVersion ''b'' ''1.0.0'' ''2024-02-01''"
definition exVc :: DocumentVersion where "exVc = mkVersion ''c'' ''1.10'' ''2024-03-01''"
definition exVd :: DocumentVersion where "exVd = mkVersion ''d'' ''1.9'' ''2024-04-01''"

definition exDoc2 :: Document where
  "exDoc2 = mkDocument ''D2'' ''Manual'' [exVa, exVb, exVc, exVd] [] []"

definition originPosition :: Position where
  "originPosition = \<lparr> pos_x = 0, pos_y = 0 \<rparr>"

lemmas version_simps = compareVersions_def parseVersion_def jsNumber_def isDigit_def
  partOrZero_def compareParts.simps

lemmas ex2_defs = mkVersion_def mkDocument_def exVa_def exVb_def exVc_def exVd_def exDoc2_def

lemmas stamp_simps = localeCompare_def sameFormat_def stampFormat_def isStampChar_def isDigit_def

lemma ex2_plain: "plainVersion exVa" "plainVersion exVb" "plainVersion exVc" "plainVersion exVd"
  by (simp_all add: plainVersion_def dotSegments_def isDigit_def ex2_defs)

lemma ex2_oneFormat: "oneFormat [exVa, exVb, exVc, exVd]"
  by (simp add: oneFormat_def sameFormat_def stampFormat_def isStampChar_def isDigit_def ex2_defs)


text \<open>
  C6, as stated, fails twice on a document ingested once with the versions 1.0, 1.0.0, 1.10
  and 1.9 in this order, each created a month after the one before: the repository exposes
  the list as ingested, which is not in the claimed order, and the list on the document's
  node is sorted semantically but leaves the tie of 1.0 and 1.0.0 in ascending \<open>createdAt\<close>
  order.
\<close>

theorem versions_not_in_claimed_order:
  "getDocument (snd (createDataRepository (\<lambda>r. exDoc2) [] [0])) ''D2'' = Some exDoc2
   \<and> versions exDoc2 = [exVa, exVb, exVc, exVd]
   \<and> list_all plainVersion (versions exDoc2) \<and> oneFormat (versions exDoc2)
   \<and> \<not> sorted_wrt versionOrder (versions exDoc2)
   \<and> nd_versions (node_data (snd (getOrCreateDocumentNode createNodeIndex exDoc2 originPosition)))
       = Some [exVc, exVd, exVa, exVb]
   \<and> \<not> sorted_wrt versionOrder [exVc, exVd, exVa, exVb]"
proof -
  have 1: "getDocument (snd (createDataRepository (\<lambda>r. exDoc2) [] [0])) ''D2'' = Some exDoc2"
    by (simp add: createDataRepository_def deduplicateDocuments_def dedupDocument_def
        deduplicateRecords_def mapFromEntries_def getDocument_def
        mapHas_def mapSet_def mapValues_def Let_def exDoc2_def mkDocument_def)
  have 2: "versions exDoc2 = [exVa, exVb, exVc, exVd]" by (simp add: exDoc2_def mkDocument_def)
  have p: "list_all plainVersion (versions exDoc2)" by (simp add: 2 ex2_plain)
  have f: "oneFormat (versions exDoc2)" by (simp add: 2 ex2_oneFormat)
  have "\<not> versionOrder exVa exVc"
    by (simp add: versionOrder_code ex2_plain) (simp add: version_simps ex2_defs)
  then have 3: "\<not> sorted_wrt versionOrder (versions exDoc2)" by (simp add: 2)
  have "sortVersions [exVa, exVb, exVc, exVd] = [exVc, exVd, exVa, exVb]"
    by (simp add: sortVersions_def sortBy_def version_simps ex2_defs)
  then have 4: "nd_versions (node_data (snd (getOrCreateDocumentNode createNodeIndex exDoc2 originPosition)))
       = Some [exVc, exVd, exVa, exVb]"
    by (simp add: getOrCreateDocumentNode_def createNodeIndex_def Let_def 2)
  have "\<not> versionOrder exVa exVb"
    by (simp add: versionOrder_code ex2_plain) (simp add: version_simps ex2_defs)
  then have 5: "\<not> sorted_wrt versionOrder [exVc, exVd, exVa, exVb]" by simp
  from 1 2 p f 3 4 5 show ?thesis by simp
qed


text \<open>
  C6, amended. The version numbers are made of decimal segments of at most 15 digits. The
  version list that \<open>sortVersions\<close> produces, which is the list a document's node carries
  when \<open>getOrCreateDocumentNode\<close> creates it, holds the same versions in descending semantic
  order, and versions that tie in semantic order keep the relative order they had:
  whatever relation \<open>R\<close> orders the input, orders the ties of the output. A version list
  merged from time stamps of one format is in descending \<open>createdAt\<close> order, so for a
  document produced by merging duplicate ingestions the sorted list is in the claimed
  order.
\<close>

theorem sortVersions_order:
  "mset (sortVersions vs) = mset vs
   \<and> (list_all plainVersion vs \<longrightarrow> sorted_wrt R vs \<longrightarrow>
        sorted_wrt (\<lambda>a b. semanticallyBelow b a \<or> (semanticallyEqual a b \<and> R a b))
          (sortVersions vs))
   \<and> (list_all plainVersion (versions1 @ versions2) \<longrightarrow> oneFormat (versions1 @ versions2) \<longrightarrow>
        sorted_wrt versionOrder (sortVersions (mergeDocumentVersions versions1 versions2)))
   \<and> (documentsByKey index (documentKey document) = None \<longrightarrow>
        nd_versions (node_data (snd (getOrCreateDocumentNode index document pos)))
          = Some (sortVersions (versions document)))"
proof -
  have 1: "mset (sortVersions vs) = mset vs" by (simp add: sortVersions_def)
  have 2: "list_all plainVersion vs \<longrightarrow> sorted_wrt R vs \<longrightarrow>
        sorted_wrt (\<lambda>a b. semanticallyBelow b a \<or> (semanticallyEqual a b \<and> R a b))
          (sortVersions vs)"
    using sortVersions_sorted_ties [of vs R] by blast
  have 3: "list_all plainVersion (versions1 @ versions2) \<longrightarrow> oneFormat (versions1 @ versions2) \<longrightarrow>
        sorted_wrt versionOrder (sortVersions (mergeDocumentVersions versions1 versions2))"
  proof (intro impI)
    assume p: "list_all plainVersion (versions1 @ versions2)"
      and f: "oneFormat (versions1 @ versions2)"
    have "list_all plainVersion (mergeDocumentVersions versions1 versions2)"
      using p mergeDocumentVersions_subset [of versions1 versions2]
      by (auto simp: list_all_iff)
    moreover have "sorted_wrt (\<lambda>a b. createdAt b \<le> createdAt a)
        (mergeDocumentVersions versions1 versions2)"
      using f by (rule mergeDocumentVersions_sorted)
    ultimately have "sorted_wrt
        (\<lambda>a b. semanticallyBelow b a \<or> (semanticallyEqual a b \<and> createdAt b \<le> createdAt a))
        (sortVersions (mergeDocumentVersions versions1 versions2))"
      by (rule sortVersions_sorted_ties)
    then show "sorted_wrt versionOrder (sortVersions (mergeDocumentVersions versions1 versions2))"
      unfolding versionOrder_def [abs_def] .
  qed
  have 4: "documentsByKey index (documentKey document) = None \<longrightarrow>
        nd_versions (node_data (snd (getOrCreateDocumentNode index document pos)))
          = Some (sortVersions (versions document))"
    by (simp add: getOrCreateDocumentNode_def Let_def)
  from 1 2 3 4 show ?thesis by (intro conjI)
qed


theorem sortVersions_order_witness:
  "list_all plainVersion [exVa, exVb, exVc, exVd]
   \<and> sorted_wrt (\<lambda>a b. createdAt a \<le> createdAt b) [exVa, exVb, exVc, exVd]
   \<and> sortVersions [exVa, exVb, exVc, exVd] = [exVc, exVd, exVa, exVb]
   \<and> sorted_wrt (\<lambda>a b. semanticallyBelow b a \<or> (semanticallyEqual a b \<and> createdAt a \<le> createdAt b))
        [exVc, exVd, exVa, exVb]
   \<and> documentsByKey createNodeIndex (documentKey exDoc2) = None
   \<and> nd_versions (node_data (snd (getOrCreateDocumentNode createNodeIndex exDoc2 originPosition)))
       = Some [exVc, exVd, exVa, exVb]
   \<and> list_all plainVersion ([exVa, exVc] @ [exVc, exVb])
   \<and> oneFormat ([exVa, exVc] @ [exVc, exVb])
   \<and> mergeDocumentVersions [exVa, exVc] [exVc, exVb] = [exVc, exVb, exVa]
   \<and> sortVersions [exVc, exVb, exVa] = [exVc, exVb, exVa]
   \<and> sorted_wrt versionOrder [exVc, exVb, exVa]"
proof -
  have p: "list_all plainVersion [exVa, exVb, exVc, exVd]" by (simp add: ex2_plain)
  have s: "sorted_wrt (\<lambda>a b. createdAt a \<le> createdAt b) [exVa, exVb, exVc, exVd]"
    by (simp add: ex2_defs)
  have e: "sortVersions [exVa, exVb, exVc, exVd] = [exVc, exVd, exVa, exVb]"
    by (simp add: sortVersions_def sortBy_def version_simps ex2_defs)
  have n: "documentsByKey createNodeIndex (documentKey exDoc2) = None"
    by (simp add: createNodeIndex_def)
  have v: "versions exDoc2 = [exVa, exVb, exVc, exVd]" by (simp add: exDoc2_def mkDocument_def)
  have p2: "list_all plainVersion ([exVa, exVc] @ [exVc, exVb])" by (simp add: ex2_plain)
  have f2: "oneFormat ([exVa, exVc] @ [exVc, exVb])"
    by (simp add: oneFormat_def sameFormat_def stampFormat_def isStampChar_def isDigit_def
        ex2_defs)
  have m: "mergeDocumentVersions [exVa, exVc] [exVc, exVb] = [exVc, exVb, exVa]"
    by (simp add: mergeDocumentVersions_def sortBy_def stamp_simps
        mapHas_def mapSet_def mapValues_def ex2_defs)
  have e2: "sortVersions [exVc, exVb, exVa] = [exVc, exVb, exVa]"
    by (simp add: sortVersions_def sortBy_def version_simps ex2_defs)
  note T = sortVersions_order [of "[exVa, exVb, exVc, exVd]" "\<lambda>a b. createdAt a \<le> createdAt b"
      "[exVa, exVc]" "[exVc, exVb]" createNodeIndex exDoc2 originPosition]
  have "sorted_wrt (\<lambda>a b. semanticallyBelow b a \<or> (semanticallyEqual a b \<and> createdAt a \<le> createdAt b))
        (sortVersions [exVa, exVb, exVc, exVd])"
    using T [THEN conjunct2, THEN conjunct1, rule_format, OF p s] .
  moreover have "nd_versions (node_data (snd (getOrCreateDocumentNode createNodeIndex exDoc2 originPosition)))
       = Some (sortVersions (versions exDoc2))"
    using T [THEN conjunct2, THEN conjunct2, THEN conjunct2] n by (rule mp)
  moreover have "sorted_wrt versionOrder (sortVersions (mergeDocumentVersions [exVa, exVc] [exVc, exVb]))"
    using T [THEN conjunct2, THEN conjunct2, THEN conjunct1, rule_format, OF p2 f2] .
  ultimately show ?thesis using p s e n p2 f2 m e2 v by simp
qed
section \<open>Search (search.ts)\<close>

text \<open>
  Strings are lists of characters in the ASCII range: \<open>toLowerCase\<close> maps the letters A to Z,
  and the white space of \<open>trim\<close> and of the pattern \<open>\s\<close> is the space and the control
  characters 9 to 13. Scores are sums of the constants 2, 1.5, 1 and 0.8 and of quotients of
  two string lengths; they are kept as exact rationals.
\<close>

definition toLowerChar :: "char \<Rightarrow> char" where
  "toLowerChar c =
     (case List.find (\<lambda>(u, l). u = c) (zip ''ABCDEFGHIJKLMNOPQRSTUVWXYZ'' ''abcdefghijklmnopqrstuvwxyz'') of
        Some (u, l) \<Rightarrow> l
      | None \<Rightarrow> c)"

definition toLowerCase :: "string \<Rightarrow> string" where
  "toLowerCase s = map toLowerChar s"

definition isWhitespace :: "char \<Rightarrow> bool" where
  "isWhitespace c = (c \<in> set [CHR '' '', CHR 0x09, CHR 0x0A, CHR 0x0B, CHR 0x0C, CHR 0x0D])"

definition trim :: "string \<Rightarrow> string" where
  "trim s = rev (dropWhile isWhitespace (rev (dropWhile isWhitespace s)))"

text \<open>
  \<open>s.split(/\s+/)\<close>: every maximal run of white space is one separator, so white space at
  the start or the end of the string gives an empty first or last piece.
\<close>

function splitWhitespace :: "string \<Rightarrow> string \<Rightarrow> string list" where
  "splitWhitespace piece [] = [rev piece]"
| "splitWhitespace piece (c # cs) =
     (if isWhitespace c then rev piece # splitWhitespace [] (dropWhile isWhitespace cs)
      else splitWhitespace (c # piece) cs)"
  by pat_completeness auto
termination
  by (relation "measure (\<lambda>(piece, s). length s)")
     (auto simp: length_dropWhile_le less_Suc_eq_le)

text \<open>\<open>s.includes(t)\<close> is \<open>includes_str s t\<close>, and \<open>s.startsWith(t)\<close> is \<open>startsWith s t\<close>.\<close>

fun includes_str :: "string \<Rightarrow> string \<Rightarrow> bool" where
  "includes_str [] t = (t = [])"
| "includes_str (c # cs) t = (prefix t (c # cs) \<or> includes_str cs t)"

definition startsWith :: "string \<Rightarrow> string \<Rightarrow> bool" where
  "startsWith s t = prefix t s"

definition calculateSimilarity :: "string \<Rightarrow> string \<Rightarrow> rat" where
  "calculateSimilarity str1 str2 =
     (let s1 = toLowerCase str1; s2 = toLowerCase str2 in
      if s1 = s2 then 1
      else if includes_str s1 s2 \<or> includes_str s2 s1 then 8 / 10
      else (let longer = (if length s1 > length s2 then s1 else s2);
                shorter = (if length s1 > length s2 then s2 else s1);
                matches = length (filter (\<lambda>char. includes_str longer [char]) shorter)
            in of_nat matches / of_nat (length longer)))"

datatype ResultType = RecordResult | DocumentResult

datatype SearchCategory = Records | Documents | All

record SearchResult =
  sr_id :: string
  sr_type :: ResultType
  sr_key :: string
  sr_title :: string
  sr_category :: SearchCategory
  sr_metadata :: metadata

record SearchQuery =
  query :: string
  categories :: "SearchCategory list"
  limit :: "int option"

definition buildIndex :: "DataRepository \<Rightarrow> (string \<times> SearchResult) list" where
  "buildIndex repository =
     fold (\<lambda>document index.
             mapSet (''document-'' @ documentKey document)
               \<lparr> sr_id = ''document-'' @ documentKey document, sr_type = DocumentResult,
                 sr_key = documentKey document, sr_title = d_title document,
                 sr_category = Documents, sr_metadata = d_metadata document \<rparr> index)
       (allDocuments repository)
       (fold (\<lambda>record index.
                mapSet (''record-'' @ recordKey record)
                  \<lparr> sr_id = ''record-'' @ recordKey record, sr_type = RecordResult,
                    sr_key = recordKey record, sr_title = r_title record,
                    sr_category = Records, sr_metadata = r_metadata record \<rparr> index)
          (allRecords repository) [])"

definition calculateScore :: "SearchResult \<Rightarrow> string list \<Rightarrow> rat" where
  "calculateScore result terms =
     (let titleLower = toLowerCase (sr_title result);
          keyLower = toLowerCase (sr_key result)
      in fold (\<lambda>term score.
           (let score1 = (if includes_str titleLower term
                          then (if startsWith titleLower term then score + 2 else score + 15 / 10)
                          else score);
                score2 = (if includes_str keyLower term then score1 + 1 else score1);
                similarity = calculateSimilarity titleLower term
            in if similarity > 6 / 10 then score2 + similarity else score2))
         terms 0)"

definition categoryFilter :: "SearchCategory list \<Rightarrow> SearchResult \<Rightarrow> bool" where
  "categoryFilter cats result =
     (if All \<in> set cats then True
      else if Records \<in> set cats \<and> sr_type result = RecordResult then True
      else if Documents \<in> set cats \<and> sr_type result = DocumentResult then True
      else False)"

text \<open>\<open>xs.slice(0, n)\<close>: the first \<open>n\<close> elements, or all but the last \<open>-n\<close> for a negative \<open>n\<close>.\<close>

definition sliceFromStart :: "int \<Rightarrow> 'a list \<Rightarrow> 'a list" where
  "sliceFromStart n xs = (if 0 \<le> n then take (nat n) xs else take (length xs - nat (- n)) xs)"

text \<open>
  \<open>search\<close>, with the list of the entries it hands to \<open>calculateScore\<close> as a first result, so
  that what is scored can be stated; the second result is the array \<open>search\<close> returns.
\<close>

definition searchScored ::
  "(string \<times> SearchResult) list \<Rightarrow> SearchQuery \<Rightarrow> SearchResult list \<times> SearchResult list" where
  "searchScored index q =
     (if length (trim (query q)) = 0 then ([], [])
      else (let searchTerms = splitWhitespace [] (toLowerCase (query q));
                filtered = filter (categoryFilter (categories q)) (mapValues index);
                scored = sliceFromStart (case limit q of None \<Rightarrow> 15 | Some n \<Rightarrow> n)
                           (sortBy (\<lambda>a b. snd b - snd a)
                              (filter (\<lambda>(result, score). score > 0)
                                 (map (\<lambda>result. (result, calculateScore result searchTerms))
                                    filtered)))
            in (filtered, map fst scored)))"

definition search :: "(string \<times> SearchResult) list \<Rightarrow> SearchQuery \<Rightarrow> SearchResult list" where
  "search index q = snd (searchScored index q)"

section \<open>Search scoring\<close>

lemma trim_whitespace:
  assumes "list_all isWhitespace s"
  shows "trim s = []"
proof -
  from assms have "dropWhile isWhitespace s = []"
    by (simp add: list_all_iff)
  then show ?thesis unfolding trim_def by (simp only: rev.simps dropWhile.simps)
qed

definition apiRecord :: "string \<Rightarrow> RecordNode" where
  "apiRecord key = mkRecord key ''API Layer'' [] []"

definition docRecord :: "string \<Rightarrow> RecordNode" where
  "docRecord key = mkRecord key ''Documentation'' [] []"

definition resultOf :: "RecordNode \<Rightarrow> SearchResult" where
  "resultOf r = \<lparr> sr_id = ''record-'' @ recordKey r, sr_type = RecordResult,
                  sr_key = recordKey r, sr_title = r_title r,
                  sr_category = Records, sr_metadata = r_metadata r \<rparr>"

lemma score_api: "calculateScore (resultOf (apiRecord k)) [''api''] =
    (if includes_str (toLowerCase k) ''api'' then 38 / 10 else 28 / 10)"
  by (simp add: calculateScore_def calculateSimilarity_def startsWith_def resultOf_def
      apiRecord_def mkRecord_def Let_def toLowerCase_def [of "''API Layer''"]
      toLowerCase_def [of "''api layer''"] toLowerCase_def [of "''api''"] toLowerChar_def)

lemma score_doc: "calculateScore (resultOf (docRecord k)) [''api''] =
    (if includes_str (toLowerCase k) ''api'' then 1 else 0)"
  by (simp add: calculateScore_def calculateSimilarity_def startsWith_def resultOf_def
      docRecord_def mkRecord_def Let_def toLowerCase_def [of "''Documentation''"] 
      toLowerCase_def [of "''documentation''"] toLowerCase_def [of "''api''"] toLowerChar_def)

lemma terms_api: "splitWhitespace [] (toLowerCase ''API'') = [''api'']"
  by (simp add: toLowerCase_def toLowerChar_def isWhitespace_def)

lemma index_two:
  assumes "k1 \<noteq> k2" "allRecords repo = [r1, r2]" "allDocuments repo = []"
    "recordKey r1 = k1" "recordKey r2 = k2"
  shows "mapValues (buildIndex repo) = [resultOf r1, resultOf r2]"
  using assms by (simp add: buildIndex_def mapSet_def mapValues_def resultOf_def)


definition exSearchRepository :: DataRepository where
  "exSearchRepository =
     snd (createDataRepository (\<lambda>r. exDoc2) [apiRecord ''R1'', docRecord ''R2''] [])"

lemma exSearchRepository_all:
  "allRecords exSearchRepository = [apiRecord ''R1'', docRecord ''R2'']"
  "allDocuments exSearchRepository = []"
  by (simp_all add: exSearchRepository_def createDataRepository_def deduplicateDocuments_def
      deduplicateRecords_def mapHas_def mapSet_def mapValues_def Let_def
      apiRecord_def docRecord_def mkRecord_def)

lemma score_none:
  "calculateScore (resultOf (apiRecord ''R1'')) [''zzz''] = 0"
  "calculateScore (resultOf (docRecord ''R2'')) [''zzz''] = 0"
  by (simp_all add: calculateScore_def calculateSimilarity_def startsWith_def resultOf_def
      apiRecord_def docRecord_def mkRecord_def Let_def toLowerCase_def toLowerChar_def)


text \<open>
  C7. A query of white space only returns the empty array and no entry is scored. A query
  for which no entry of the index scores above zero returns the empty array. For an index
  built from two records titled API Layer and Documentation, whatever their (different)
  keys and whichever comes first, the query API scores the first strictly higher and lists
  it first; Documentation is listed, after it, only if its key contains the term.
\<close>

theorem search_scoring:
  "(list_all isWhitespace (query q) \<longrightarrow> searchScored index q = ([], []))
   \<and> ((\<forall>result \<in> set (mapValues index).
          calculateScore result (splitWhitespace [] (toLowerCase (query q))) \<le> 0)
        \<longrightarrow> search index q = [])
   \<and> (k1 \<noteq> k2 \<and> allDocuments repo = []
        \<and> (allRecords repo = [apiRecord k1, docRecord k2] \<or> allRecords repo = [docRecord k2, apiRecord k1])
        \<longrightarrow> calculateScore (resultOf (apiRecord k1)) [''api'']
              > calculateScore (resultOf (docRecord k2)) [''api'']
          \<and> search (buildIndex repo) \<lparr> query = ''API'', categories = [All], limit = None \<rparr>
              = (if includes_str (toLowerCase k2) ''api''
                 then [resultOf (apiRecord k1), resultOf (docRecord k2)]
                 else [resultOf (apiRecord k1)]))"
proof (intro conjI impI)
  assume "list_all isWhitespace (query q)"
  then show "searchScored index q = ([], [])"
    by (simp add: searchScored_def trim_whitespace)
next
  assume a: "\<forall>result \<in> set (mapValues index).
          calculateScore result (splitWhitespace [] (toLowerCase (query q))) \<le> 0"
  have "filter (\<lambda>(result, score). score > 0)
          (map (\<lambda>result. (result, calculateScore result (splitWhitespace [] (toLowerCase (query q)))))
             (filter (categoryFilter (categories q)) (mapValues index))) = []"
    using a by (auto simp: filter_empty_conv not_less)
  then show "search index q = []"
    by (simp add: search_def searchScored_def Let_def sortBy_def sliceFromStart_def)
next
  assume h: "k1 \<noteq> k2 \<and> allDocuments repo = []
        \<and> (allRecords repo = [apiRecord k1, docRecord k2] \<or> allRecords repo = [docRecord k2, apiRecord k1])"
  show "calculateScore (resultOf (apiRecord k1)) [''api'']
              > calculateScore (resultOf (docRecord k2)) [''api'']"
    by (simp add: score_api score_doc)
next
  assume h: "k1 \<noteq> k2 \<and> allDocuments repo = []
        \<and> (allRecords repo = [apiRecord k1, docRecord k2] \<or> allRecords repo = [docRecord k2, apiRecord k1])"
  then have k: "recordKey (apiRecord k1) = k1" "recordKey (docRecord k2) = k2"
    by (simp_all add: apiRecord_def docRecord_def mkRecord_def)
  from h have "mapValues (buildIndex repo) = [resultOf (apiRecord k1), resultOf (docRecord k2)]
      \<or> mapValues (buildIndex repo) = [resultOf (docRecord k2), resultOf (apiRecord k1)]"
    using index_two [of k1 k2 repo "apiRecord k1" "docRecord k2"]
      index_two [of k2 k1 repo "docRecord k2" "apiRecord k1"] k by auto
  moreover have "trim ''API'' = ''API''" by (simp add: trim_def isWhitespace_def)
  ultimately show "search (buildIndex repo) \<lparr> query = ''API'', categories = [All], limit = None \<rparr>
              = (if includes_str (toLowerCase k2) ''api''
                 then [resultOf (apiRecord k1), resultOf (docRecord k2)]
                 else [resultOf (apiRecord k1)])"
    by (auto simp: search_def searchScored_def Let_def terms_api categoryFilter_def
        score_api score_doc sortBy_def sliceFromStart_def)
qed

theorem search_scoring_witness:
  "list_all isWhitespace [CHR '' '', CHR 0x09]
   \<and> searchScored (buildIndex exSearchRepository)
        \<lparr> query = [CHR '' '', CHR 0x09], categories = [All], limit = None \<rparr> = ([], [])
   \<and> mapValues (buildIndex exSearchRepository)
        = [resultOf (apiRecord ''R1''), resultOf (docRecord ''R2'')]
   \<and> splitWhitespace [] (toLowerCase ''zzz'') = [''zzz'']
   \<and> calculateScore (resultOf (apiRecord ''R1'')) [''zzz''] \<le> 0
   \<and> calculateScore (resultOf (docRecord ''R2'')) [''zzz''] \<le> 0
   \<and> search (buildIndex exSearchRepository)
        \<lparr> query = ''zzz'', categories = [All], limit = None \<rparr> = []
   \<and> calculateScore (resultOf (apiRecord ''R1'')) [''api'']
        > calculateScore (resultOf (docRecord ''R2'')) [''api'']
   \<and> search (buildIndex exSearchRepository)
        \<lparr> query = ''API'', categories = [All], limit = None \<rparr> = [resultOf (apiRecord ''R1'')]"
proof -
  let ?ix = "buildIndex exSearchRepository"
  have ws: "list_all isWhitespace [CHR '' '', CHR 0x09]" by (simp add: isWhitespace_def)
  have ix: "mapValues ?ix = [resultOf (apiRecord ''R1''), resultOf (docRecord ''R2'')]"
    by (rule index_two [of "''R1''" "''R2''"])
       (simp_all add: exSearchRepository_all apiRecord_def docRecord_def mkRecord_def)
  have tz: "splitWhitespace [] (toLowerCase ''zzz'') = [''zzz'']"
    by (simp add: toLowerCase_def toLowerChar_def isWhitespace_def)
  have none: "\<forall>result \<in> set (mapValues ?ix).
      calculateScore result (splitWhitespace [] (toLowerCase (query
        \<lparr> query = ''zzz'', categories = [All], limit = None \<rparr>))) \<le> 0"
    by (simp add: ix tz score_none)
  have ex: "''R1'' \<noteq> ''R2'' \<and> allDocuments exSearchRepository = []
        \<and> (allRecords exSearchRepository = [apiRecord ''R1'', docRecord ''R2'']
           \<or> allRecords exSearchRepository = [docRecord ''R2'', apiRecord ''R1''])"
    by (simp add: exSearchRepository_all)
  have no: "\<not> includes_str (toLowerCase ''R2'') ''api''"
    by (simp add: toLowerCase_def toLowerChar_def)
  note T1 = search_scoring [of "\<lparr> query = [CHR '' '', CHR 0x09], categories = [All], limit = None \<rparr>"
      ?ix "''R1''" "''R2''" exSearchRepository]
  note T2 = search_scoring [of "\<lparr> query = ''zzz'', categories = [All], limit = None \<rparr>"
      ?ix "''R1''" "''R2''" exSearchRepository]
  have a: "searchScored ?ix \<lparr> query = [CHR '' '', CHR 0x09], categories = [All], limit = None \<rparr>
      = ([], [])"
    using T1 [THEN conjunct1] ws by simp
  have b: "search ?ix \<lparr> query = ''zzz'', categories = [All], limit = None \<rparr> = []"
    using T2 [THEN conjunct2, THEN conjunct1] none by (rule mp)
  have c: "calculateScore (resultOf (apiRecord ''R1'')) [''api'']
              > calculateScore (resultOf (docRecord ''R2'')) [''api'']
      \<and> search ?ix \<lparr> query = ''API'', categories = [All], limit = None \<rparr>
           = (if includes_str (toLowerCase ''R2'') ''api''
              then [resultOf (apiRecord ''R1''), resultOf (docRecord ''R2'')]
              else [resultOf (apiRecord ''R1'')])"
    using T2 [THEN conjunct2, THEN conjunct2] ex by (rule mp)
  from ws a ix tz b c no show ?thesis by (simp add: score_none)
qed

section \<open>Descendant closure (FlowWidget.tsx, useExpand.ts)\<close>

text \<open>
  A JavaScript \<open>Set\<close> of strings keeps insertion order and ignores a second \<open>add\<close> of the
  same value; \<open>Array.from\<close> lists it in that order.
\<close>

definition setAdd :: "'a \<Rightarrow> 'a list \<Rightarrow> 'a list" where
  "setAdd v s = (if v \<in> set s then s else s @ [v])"

text \<open>\<open>forEach\<close> with a body that may fail to return: the first failure ends the loop.\<close>

fun forEachM :: "('a \<Rightarrow> 's \<Rightarrow> 's option) \<Rightarrow> 'a list \<Rightarrow> 's \<Rightarrow> 's option" where
  "forEachM f [] s = Some s"
| "forEachM f (v # vs) s = (case f v s of None \<Rightarrow> None | Some s' \<Rightarrow> forEachM f vs s')"

text \<open>
  \<open>getNodeDescendants\<close> (the same text in FlowWidget.tsx and in the hook module): the inner
  closure \<open>collect\<close> adds the target of every outgoing edge and calls itself on it, with no
  test of the set it is filling. The recursion is bounded by the call stack: the first
  argument is the number of frames still available, and \<open>None\<close> is the \<open>RangeError\<close> of an
  exhausted stack.
\<close>

fun collect :: "nat \<Rightarrow> FlowEdge list \<Rightarrow> string \<Rightarrow> string list \<Rightarrow> string list option" where
  "collect 0 edges ident descendants = None"
| "collect (Suc depth) edges ident descendants =
     forEachM (\<lambda>edge ds. collect depth edges (target edge) (setAdd (target edge) ds))
       (filter (\<lambda>e. source e = ident) edges) descendants"

definition getNodeDescendants ::
  "nat \<Rightarrow> string \<Rightarrow> FlowNode list \<Rightarrow> FlowEdge list \<Rightarrow> string list option" where
  "getNodeDescendants depth nodeId nodes edges = collect depth edges nodeId []"

section \<open>Edges (dedup.ts)\<close>

definition createEdgeId :: "string \<Rightarrow> string \<Rightarrow> LinkType \<Rightarrow> string" where
  "createEdgeId sourceId targetId linkType =
     sourceId @ [CHR 0xE2, CHR 0x86, CHR 0x92] @ targetId @ '':'' @ linkType"

definition getLinkTypeColor :: "LinkType \<Rightarrow> string" where
  "getLinkTypeColor linkType = ''#3b82f6''"

definition createEdge :: "string \<Rightarrow> string \<Rightarrow> LinkType \<Rightarrow> FlowEdge" where
  "createEdge sourceId targetId linkType =
     \<lparr> edge_id = createEdgeId sourceId targetId linkType,
       source = sourceId,
       target = targetId,
       edge_type = Some ''smoothstep'',
       edge_linkType = Some linkType,
       animated = Some False,
       edge_style = Some (getLinkTypeColor linkType, 2) \<rparr>"

definition isEdgeUnique :: "FlowEdge list \<Rightarrow> string \<Rightarrow> string \<Rightarrow> LinkType \<Rightarrow> bool" where
  "isEdgeUnique edges sourceId targetId linkType =
     (\<not> list_ex (\<lambda>edge. source edge = sourceId \<and> target edge = targetId
                        \<and> edge_linkType edge = Some linkType) edges)"

section \<open>Cycle safety of the descendant closure\<close>

lemma collect_cycle:
  assumes "source e1 = a" "target e1 = b" "source e2 = b" "target e2 = a" "a \<noteq> b"
  shows "collect depth [e1, e2] a ds = None \<and> collect depth [e1, e2] b ds = None"
proof (induction depth arbitrary: ds)
  case 0
  show ?case by simp
next
  case (Suc depth)
  show ?case using assms Suc by simp
qed

text \<open>
  C2. On the two-node cycle A\<rightarrow>B\<rightarrow>A the descendant closure of A is never returned: whatever
  the number of stack frames, the traversal exhausts them.
\<close>

theorem getNodeDescendants_cycle_never_returns:
  "getNodeDescendants depth ''A'' nodes
     [createEdge ''A'' ''B'' ''is_parent_of'', createEdge ''B'' ''A'' ''is_parent_of''] = None"
  unfolding getNodeDescendants_def
  using collect_cycle [of "createEdge ''A'' ''B'' ''is_parent_of''" "''A''" "''B''"
      "createEdge ''B'' ''A'' ''is_parent_of''" depth "[]"]
  by (simp add: createEdge_def)

section \<open>Hierarchical layout (layout.ts)\<close>

text \<open>The directions \<open>'LR'\<close>, \<open>'TB'\<close>, \<open>'RL'\<close> and \<open>'BT'\<close>.\<close>

datatype Direction = DirLR | DirTB | DirRL | DirBT

record LayoutEngine =
  nodeWidth :: rat
  nodeHeight :: rat
  levelGap :: rat
  nodeGap :: rat

text \<open>
  The constructor replaces a default only by an option that is truthy: not absent and not 0.
\<close>

definition newLayoutEngine ::
  "rat option \<Rightarrow> rat option \<Rightarrow> rat option \<Rightarrow> rat option \<Rightarrow> LayoutEngine" where
  "newLayoutEngine w h lg ng =
     \<lparr> nodeWidth = (case w of Some v \<Rightarrow> if v \<noteq> 0 then v else 200 | None \<Rightarrow> 200),
       nodeHeight = (case h of Some v \<Rightarrow> if v \<noteq> 0 then v else 60 | None \<Rightarrow> 60),
       levelGap = (case lg of Some v \<Rightarrow> if v \<noteq> 0 then v else 120 | None \<Rightarrow> 120),
       nodeGap = (case ng of Some v \<Rightarrow> if v \<noteq> 0 then v else 60 | None \<Rightarrow> 60) \<rparr>"

text \<open>\<open>a || b\<close> on strings that may be absent: \<open>a\<close> when it is present and not empty.\<close>

definition orElse :: "string option \<Rightarrow> string option \<Rightarrow> string option" where
  "orElse a b = (case a of Some s \<Rightarrow> if s \<noteq> [] then Some s else b | None \<Rightarrow> b)"

definition firstNodeId :: "FlowNode list \<Rightarrow> string option" where
  "firstNodeId nodes = (case nodes of [] \<Rightarrow> None | node # _ \<Rightarrow> Some (node_id node))"

definition neighborsOf :: "(string \<times> string list) list \<Rightarrow> string \<Rightarrow> string list" where
  "neighborsOf adjacency ident = (case map_of adjacency ident of None \<Rightarrow> [] | Some ns \<Rightarrow> ns)"

definition buildAdjacencyList ::
  "FlowNode list \<Rightarrow> FlowEdge list \<Rightarrow> (string \<times> string list) list" where
  "buildAdjacencyList nodes edges =
     fold (\<lambda>edge adjacency.
             mapSet (source edge) (neighborsOf adjacency (source edge) @ [target edge]) adjacency)
       edges
       (fold (\<lambda>node adjacency. mapSet (node_id node) [] adjacency) nodes [])"

text \<open>
  The closure \<open>dfs\<close> of \<open>calculateLevels\<close>, with its pending calls on an explicit stack: the
  call \<open>dfs(nodeId, level)\<close> returns at once on a visited node, and otherwise marks the node,
  records its level and calls itself on the children in order, each at \<open>level + 1\<close>, before
  the calls that were pending. \<open>visited\<close> and \<open>levels\<close> are the two variables the closure
  writes.
\<close>

function dfs ::
  "(string \<times> string list) list \<Rightarrow> (string \<times> nat) list
   \<Rightarrow> string set \<times> (string \<rightharpoonup> nat) \<Rightarrow> string set \<times> (string \<rightharpoonup> nat)" where
  "dfs adjacency [] state = state"
| "dfs adjacency ((nodeId, level) # pending) (visited, levels) =
     (if nodeId \<in> visited then dfs adjacency pending (visited, levels)
      else dfs adjacency
             (map (\<lambda>childId. (childId, level + 1)) (neighborsOf adjacency nodeId) @ pending)
             (insert nodeId visited, levels(nodeId \<mapsto> level)))"
  by pat_completeness auto

lemma neighborsOf_outside:
  "nodeId \<notin> fst ` set adjacency \<Longrightarrow> neighborsOf adjacency nodeId = []"
  using map_of_eq_None_iff [of adjacency nodeId] by (simp add: neighborsOf_def)

termination dfs
proof (relation "inv_image (less_than <*lex*> less_than)
    (\<lambda>(adjacency, pending, (visited, levels)).
       (card (fst ` set adjacency - visited), length pending))", goal_cases)
  case 1
  show ?case by (intro wf_inv_image wf_lex_prod wf_less_than)
next
  case (2 adjacency nodeId level pending visited levels)
  then show ?case by simp
next
  case (3 adjacency nodeId level pending visited levels)
  show ?case
  proof (cases "nodeId \<in> fst ` set adjacency")
    case True
    have "fst ` set adjacency - insert nodeId visited \<subset> fst ` set adjacency - visited"
      using True 3 by auto
    then have "card (fst ` set adjacency - insert nodeId visited)
        < card (fst ` set adjacency - visited)"
      by (intro psubset_card_mono) simp_all
    then show ?thesis by simp
  next
    case False
    then have "fst ` set adjacency - insert nodeId visited = fst ` set adjacency - visited"
      by auto
    with False show ?thesis by (simp add: neighborsOf_outside)
  qed
qed

definition levelOf :: "(string \<rightharpoonup> nat) \<Rightarrow> string \<Rightarrow> nat" where
  "levelOf levels ident = (case levels ident of None \<Rightarrow> 0 | Some level \<Rightarrow> level)"

definition calculateLevels ::
  "FlowNode list \<Rightarrow> FlowEdge list \<Rightarrow> string option \<Rightarrow> (string \<rightharpoonup> nat)" where
  "calculateLevels nodes edges rootNodeId =
     (let adjacency = buildAdjacencyList nodes edges in
      case orElse rootNodeId (firstNodeId nodes) of
        None \<Rightarrow> Map.empty
      | Some startNode \<Rightarrow>
          if startNode = [] then Map.empty
          else fold (\<lambda>node levels.
                       if levels (node_id node) = None then levels(node_id node \<mapsto> 0)
                       else levels)
                 nodes (snd (dfs adjacency [(startNode, 0)] ({}, Map.empty))))"

text \<open>
  In \<open>calculateLevels\<close> above, \<open>startNode\<close> is \<open>rootNodeId || nodes[0]?.id\<close>; an absent or empty
  start node returns the empty map of levels before any node is given the level 0.
\<close>

text \<open>
  \<open>positionNodes\<close>: the nodes are grouped by level (\<open>levels.get(node.id) || 0\<close>) in a \<open>Map\<close>,
  the levels are sorted, and every group is laid out along the cross axis, one group after
  the other along the main axis.
\<close>

definition addToGroup ::
  "(string \<rightharpoonup> nat) \<Rightarrow> FlowNode \<Rightarrow> (nat \<times> FlowNode list) list
   \<Rightarrow> (nat \<times> FlowNode list) list" where
  "addToGroup levels node levelGroups =
     (let level = levelOf levels (node_id node);
          groups = (if \<not> mapHas levelGroups level then mapSet level [] levelGroups
                    else levelGroups)
      in case map_of groups level of
           None \<Rightarrow> groups
         | Some members \<Rightarrow> mapSet level (members @ [node]) groups)"

definition groupByLevel ::
  "FlowNode list \<Rightarrow> (string \<rightharpoonup> nat) \<Rightarrow> (nat \<times> FlowNode list) list" where
  "groupByLevel nodes levels = fold (addToGroup levels) nodes []"

fun placeGroup :: "(rat \<Rightarrow> Position) \<Rightarrow> rat \<Rightarrow> rat \<Rightarrow> FlowNode list \<Rightarrow> FlowNode list" where
  "placeGroup place current step [] = []"
| "placeGroup place current step (node # rest) =
     node\<lparr>position := place current\<rparr> # placeGroup place (current + step) step rest"

fun placeLevels ::
  "LayoutEngine \<Rightarrow> bool \<Rightarrow> (nat \<times> FlowNode list) list \<Rightarrow> rat \<Rightarrow> nat list \<Rightarrow> FlowNode list" where
  "placeLevels engine horizontal levelGroups current [] = []"
| "placeLevels engine horizontal levelGroups current (level # rest) =
     (let nodesAtLevel = (case map_of levelGroups level of None \<Rightarrow> [] | Some members \<Rightarrow> members)
      in (if horizontal
          then placeGroup (\<lambda>currentY. \<lparr> pos_x = current, pos_y = currentY \<rparr>)
                 (- (of_nat (length nodesAtLevel) * (nodeHeight engine + nodeGap engine)) / 2)
                 (nodeHeight engine + nodeGap engine) nodesAtLevel
               @ placeLevels engine horizontal levelGroups
                   (current + (nodeWidth engine + levelGap engine)) rest
          else placeGroup (\<lambda>currentX. \<lparr> pos_x = currentX, pos_y = current \<rparr>)
                 (- (of_nat (length nodesAtLevel) * (nodeWidth engine + nodeGap engine)) / 2)
                 (nodeWidth engine + nodeGap engine) nodesAtLevel
               @ placeLevels engine horizontal levelGroups
                   (current + (nodeHeight engine + levelGap engine)) rest))"

definition positionNodes ::
  "LayoutEngine \<Rightarrow> FlowNode list \<Rightarrow> (string \<rightharpoonup> nat) \<Rightarrow> Direction \<Rightarrow> FlowNode list" where
  "positionNodes engine nodes levels direction =
     (let levelGroups = groupByLevel nodes levels in
      if direction = DirLR \<or> direction = DirRL
      then placeLevels engine True levelGroups (if direction = DirRL then - 1000 else 0)
             (sortBy (\<lambda>a b. if direction = DirRL then int b - int a else int a - int b)
                (map fst levelGroups))
      else placeLevels engine False levelGroups (if direction = DirBT then - 1000 else 0)
             (sortBy (\<lambda>a b. if direction = DirBT then int b - int a else int a - int b)
                (map fst levelGroups)))"

definition calculateLayout ::
  "LayoutEngine \<Rightarrow> FlowNode list \<Rightarrow> FlowEdge list \<Rightarrow> Direction option \<Rightarrow> string option
   \<Rightarrow> FlowNode list" where
  "calculateLayout engine nodes edges direction rootNodeId =
     (let dir = (case direction of None \<Rightarrow> DirLR | Some d \<Rightarrow> d);
          root = orElse rootNodeId (firstNodeId nodes)
      in if length nodes = 0 then []
         else positionNodes engine nodes (calculateLevels nodes edges root) dir)"

definition calculateHierarchicalLayout ::
  "FlowNode list \<Rightarrow> FlowEdge list \<Rightarrow> string option \<Rightarrow> Direction option \<Rightarrow> FlowNode list" where
  "calculateHierarchicalLayout nodes edges rootNodeId direction =
     calculateLayout (newLayoutEngine None None (Some 320) (Some 220)) nodes edges
       (Some (case direction of None \<Rightarrow> DirTB | Some d \<Rightarrow> d)) rootNodeId"

section \<open>Levels of the hierarchical layout\<close>

text \<open>The edges as a relation between node ids.\<close>

definition edgeRel :: "FlowEdge list \<Rightarrow> (string \<times> string) set" where
  "edgeRel edges = (\<lambda>edge. (source edge, target edge)) ` set edges"

lemma neighborsOf_mapSet:
  "neighborsOf (mapSet k v adjacency) ident = (if ident = k then v else neighborsOf adjacency ident)"
  by (simp add: neighborsOf_def mapSet_def update_conv')

lemma neighborsOf_nodes:
  "neighborsOf adjacency ident = [] \<Longrightarrow>
   neighborsOf (fold (\<lambda>node adjacency. mapSet (node_id node) [] adjacency) nodes adjacency) ident = []"
  by (induction nodes arbitrary: adjacency) (simp_all add: neighborsOf_mapSet)

lemma neighborsOf_edges:
  "neighborsOf (fold (\<lambda>edge adjacency.
        mapSet (source edge) (neighborsOf adjacency (source edge) @ [target edge]) adjacency)
      edges adjacency) ident
   = neighborsOf adjacency ident @ map target (filter (\<lambda>edge. source edge = ident) edges)"
  by (induction edges arbitrary: adjacency) (simp_all add: neighborsOf_mapSet)

lemma neighborsOf_buildAdjacencyList:
  "neighborsOf (buildAdjacencyList nodes edges) ident
   = map target (filter (\<lambda>edge. source edge = ident) edges)"
proof -
  have "neighborsOf (fold (\<lambda>node adjacency. mapSet (node_id node) [] adjacency) nodes []) ident = []"
    by (rule neighborsOf_nodes) (simp add: neighborsOf_def)
  then show ?thesis by (simp add: buildAdjacencyList_def neighborsOf_edges)
qed

lemma neighborsOf_edgeRel:
  "c \<in> set (neighborsOf (buildAdjacencyList nodes edges) p) \<longleftrightarrow> (p, c) \<in> edgeRel edges"
  by (auto simp: neighborsOf_buildAdjacencyList edgeRel_def)

lemma dfs_cong:
  "(\<And>ident. neighborsOf adjacency ident = neighborsOf adjacency' ident) \<Longrightarrow>
   dfs adjacency pending state = dfs adjacency' pending state"
proof (induction adjacency pending state rule: dfs.induct)
  case (1 adjacency state)
  show ?case by simp
next
  case (2 adjacency nodeId level pending visited levels)
  then show ?case by simp
qed

text \<open>
  The invariant of the traversal from the root \<open>r\<close>: the levels are recorded for exactly
  the visited ids, the root has level 0 and is the only id at level 0, an id at level
  \<open>l + 1\<close> was entered from an id at level \<open>l\<close>, and so will every pending call be, and every
  child of a visited id is visited or pending.
\<close>

definition dfsInv ::
  "string \<Rightarrow> (string \<times> string) set \<Rightarrow> (string \<times> nat) list
   \<Rightarrow> string set \<times> (string \<rightharpoonup> nat) \<Rightarrow> bool" where
  "dfsInv r C pending = (\<lambda>(visited, levels).
      dom levels = visited
    \<and> levels r = Some 0
    \<and> (\<forall>v. levels v = Some 0 \<longrightarrow> v = r)
    \<and> (\<forall>v l. levels v = Some (Suc l) \<longrightarrow> (\<exists>p. levels p = Some l \<and> (p, v) \<in> C))
    \<and> (\<forall>(v, l) \<in> set pending. \<exists>p l'. l = Suc l' \<and> levels p = Some l' \<and> (p, v) \<in> C)
    \<and> (\<forall>p \<in> visited. \<forall>c. (p, c) \<in> C \<longrightarrow> c \<in> visited \<or> c \<in> fst ` set pending))"

lemma dfsInvI:
  assumes "dom levels = visited" "levels r = Some 0" "\<forall>v. levels v = Some 0 \<longrightarrow> v = r"
    "\<forall>v l. levels v = Some (Suc l) \<longrightarrow> (\<exists>p. levels p = Some l \<and> (p, v) \<in> C)"
    "\<forall>(v, l) \<in> set pending. \<exists>p l'. l = Suc l' \<and> levels p = Some l' \<and> (p, v) \<in> C"
    "\<forall>p \<in> visited. \<forall>c. (p, c) \<in> C \<longrightarrow> c \<in> visited \<or> c \<in> fst ` set pending"
  shows "dfsInv r C pending (visited, levels)"
  unfolding dfsInv_def prod.case using assms by (intro conjI)

lemma dfsInvD:
  assumes "dfsInv r C pending (visited, levels)"
  shows "dom levels = visited" "levels r = Some 0" "\<forall>v. levels v = Some 0 \<longrightarrow> v = r"
    "\<forall>v l. levels v = Some (Suc l) \<longrightarrow> (\<exists>p. levels p = Some l \<and> (p, v) \<in> C)"
    "\<forall>(v, l) \<in> set pending. \<exists>p l'. l = Suc l' \<and> levels p = Some l' \<and> (p, v) \<in> C"
    "\<forall>p \<in> visited. \<forall>c. (p, c) \<in> C \<longrightarrow> c \<in> visited \<or> c \<in> fst ` set pending"
  using assms unfolding dfsInv_def prod.case by blast+

lemma dfsInv_skip:
  assumes inv: "dfsInv r C ((v, l) # pending) (visited, levels)" and old: "v \<in> visited"
  shows "dfsInv r C pending (visited, levels)"
proof (rule dfsInvI)
  note D = dfsInvD [OF inv]
  show "dom levels = visited" "levels r = Some 0" "\<forall>v. levels v = Some 0 \<longrightarrow> v = r"
    "\<forall>v l. levels v = Some (Suc l) \<longrightarrow> (\<exists>p. levels p = Some l \<and> (p, v) \<in> C)"
    by (rule D)+
  show "\<forall>(v, l) \<in> set pending. \<exists>p l'. l = Suc l' \<and> levels p = Some l' \<and> (p, v) \<in> C"
    using D(5) by simp
  show "\<forall>p \<in> visited. \<forall>c. (p, c) \<in> C \<longrightarrow> c \<in> visited \<or> c \<in> fst ` set pending"
  proof (intro ballI allI impI)
    fix p c assume "p \<in> visited" "(p, c) \<in> C"
    with D(6) have "c \<in> visited \<or> c \<in> fst ` set ((v, l) # pending)" by blast
    with old show "c \<in> visited \<or> c \<in> fst ` set pending" by auto
  qed
qed

lemma dfsInv_visit:
  assumes inv: "dfsInv r C ((v, l) # pending) (visited, levels)" and new: "v \<notin> visited"
    and nb: "\<And>c. c \<in> set ns \<longleftrightarrow> (v, c) \<in> C"
  shows "dfsInv r C (map (\<lambda>c. (c, l + 1)) ns @ pending) (insert v visited, levels(v \<mapsto> l))"
proof -
  note D = dfsInvD [OF inv]
  note a = D(1) and b = D(2)
  have b': "\<And>w. levels w = Some 0 \<Longrightarrow> w = r" using D(3) by blast
  have c: "\<And>w k. levels w = Some (Suc k) \<Longrightarrow> \<exists>p. levels p = Some k \<and> (p, w) \<in> C"
    using D(4) by blast
  have dv: "\<exists>p l'. l = Suc l' \<and> levels p = Some l' \<and> (p, v) \<in> C"
    using D(5) by simp
  have d: "\<And>w k. (w, k) \<in> set pending \<Longrightarrow> \<exists>p l'. k = Suc l' \<and> levels p = Some l' \<and> (p, w) \<in> C"
    using D(5) by auto
  have e: "\<And>p c. p \<in> visited \<Longrightarrow> (p, c) \<in> C \<Longrightarrow> c \<in> visited \<or> c = v \<or> c \<in> fst ` set pending"
  proof -
    fix p c assume "p \<in> visited" "(p, c) \<in> C"
    with D(6) have "c \<in> visited \<or> c \<in> fst ` set ((v, l) # pending)" by blast
    then show "c \<in> visited \<or> c = v \<or> c \<in> fst ` set pending" by auto
  qed
  from a new have none: "levels v = None" by auto
  have keep: "\<And>p k. levels p = Some k \<Longrightarrow> (levels(v \<mapsto> l)) p = Some k"
    using none by auto
  let ?lv = "levels(v \<mapsto> l)" and ?pd = "map (\<lambda>c. (c, l + 1)) ns @ pending"
  have A: "dom ?lv = insert v visited" using a by auto
  have B: "?lv r = Some 0" using b keep by blast
  from dv obtain l' where l': "l = Suc l'" by blast
  have B': "\<forall>w. ?lv w = Some 0 \<longrightarrow> w = r" using b' l' by auto
  have Cc: "\<forall>w k. ?lv w = Some (Suc k) \<longrightarrow> (\<exists>p. ?lv p = Some k \<and> (p, w) \<in> C)"
  proof (intro allI impI)
    fix w k assume w: "?lv w = Some (Suc k)"
    show "\<exists>p. ?lv p = Some k \<and> (p, w) \<in> C"
    proof (cases "w = v")
      case True
      with w have "l = Suc k" by simp
      with dv obtain p where "levels p = Some k" "(p, v) \<in> C" by auto
      with True keep show ?thesis by blast
    next
      case False
      with w have "levels w = Some (Suc k)" by simp
      from c [OF this] keep show ?thesis by blast
    qed
  qed
  have D': "\<forall>(w, k) \<in> set ?pd. \<exists>p l'. k = Suc l' \<and> ?lv p = Some l' \<and> (p, w) \<in> C"
  proof (clarify)
    fix w k assume "(w, k) \<in> set ?pd"
    then consider "w \<in> set ns" "k = l + 1" | "(w, k) \<in> set pending" by auto
    then show "\<exists>p l'. k = Suc l' \<and> ?lv p = Some l' \<and> (p, w) \<in> C"
    proof cases
      case 1
      then have "k = Suc l \<and> ?lv v = Some l \<and> (v, w) \<in> C" using nb by simp
      then show ?thesis by blast
    next
      case 2
      from d [OF this] keep show ?thesis by blast
    qed
  qed
  have E: "\<forall>p \<in> insert v visited. \<forall>c. (p, c) \<in> C \<longrightarrow> c \<in> insert v visited \<or> c \<in> fst ` set ?pd"
  proof (intro ballI allI impI)
    fix p c assume p: "p \<in> insert v visited" and pc: "(p, c) \<in> C"
    show "c \<in> insert v visited \<or> c \<in> fst ` set ?pd"
    proof (cases "p = v")
      case True
      with pc nb have "c \<in> set ns" by simp
      then have "c \<in> fst ` set ?pd" by force
      then show ?thesis ..
    next
      case False
      with p have "p \<in> visited" by simp
      from e [OF this pc] show ?thesis by auto
    qed
  qed
  from A B B' Cc D' E show ?thesis by (rule dfsInvI)
qed

lemma dfsInv_dfs:
  assumes "\<And>p c. c \<in> set (neighborsOf adjacency p) \<longleftrightarrow> (p, c) \<in> C"
  shows "dfsInv r C pending state \<Longrightarrow> dfsInv r C [] (dfs adjacency pending state)"
  using assms
proof (induction adjacency pending state rule: dfs.induct)
  case (1 adjacency state)
  then show ?case by simp
next
  case (2 adjacency nodeId level pending visited levels)
  show ?case
  proof (cases "nodeId \<in> visited")
    case True
    with 2 show ?thesis using dfsInv_skip by simp
  next
    case False
    have "dfsInv r C (map (\<lambda>c. (c, level + 1)) (neighborsOf adjacency nodeId) @ pending)
        (insert nodeId visited, levels(nodeId \<mapsto> level))"
      using "2.prems"(1) False "2.prems"(2) by (rule dfsInv_visit)
    with 2 False show ?thesis by simp
  qed
qed

lemma dfs_start:
  assumes nb: "\<And>p c. c \<in> set (neighborsOf adjacency p) \<longleftrightarrow> (p, c) \<in> C"
  shows "dfsInv r C [] (dfs adjacency [(r, 0)] ({}, Map.empty))"
proof -
  let ?pd = "map (\<lambda>c. (c, 0 + 1)) (neighborsOf adjacency r) @ []"
  have "dfsInv r C ?pd ({r}, [r \<mapsto> 0])"
  proof (rule dfsInvI)
    show "dom [r \<mapsto> (0::nat)] = {r}" by simp
    show "[r \<mapsto> (0::nat)] r = Some 0" by simp
    show "\<forall>v. [r \<mapsto> (0::nat)] v = Some 0 \<longrightarrow> v = r" by (simp split: if_splits)
    show "\<forall>v l. [r \<mapsto> (0::nat)] v = Some (Suc l) \<longrightarrow> (\<exists>p. [r \<mapsto> (0::nat)] p = Some l \<and> (p, v) \<in> C)"
      by (simp split: if_splits)
    show "\<forall>(v, l) \<in> set ?pd. \<exists>p l'. l = Suc l' \<and> [r \<mapsto> (0::nat)] p = Some l' \<and> (p, v) \<in> C"
      using nb by auto
    show "\<forall>p \<in> {r}. \<forall>c. (p, c) \<in> C \<longrightarrow> c \<in> {r} \<or> c \<in> fst ` set ?pd"
    proof (intro ballI allI impI)
      fix p c assume "p \<in> {r}" "(p, c) \<in> C"
      with nb have "c \<in> set (neighborsOf adjacency r)" by simp
      then have "c \<in> fst ` set ?pd" by force
      then show "c \<in> {r} \<or> c \<in> fst ` set ?pd" ..
    qed
  qed
  then have "dfsInv r C [] (dfs adjacency ?pd ({r}, [r \<mapsto> 0]))"
    using nb dfsInv_dfs by blast
  then show ?thesis by simp
qed

lemma fold_default_level:
  "fold (\<lambda>node levels. if levels (node_id node) = None then levels(node_id node \<mapsto> 0) else levels)
     nodes levels ident
   = (case levels ident of
        Some level \<Rightarrow> Some level
      | None \<Rightarrow> if ident \<in> node_id ` set nodes then Some 0 else None)"
  by (induction nodes arbitrary: levels) (auto split: option.splits)

lemma dfsInv_path:
  assumes "dfsInv r C [] (visited, levels)"
  shows "levels v = Some l \<Longrightarrow> (r, v) \<in> C ^^ l"
proof (induction l arbitrary: v)
  case 0
  with dfsInvD(3) [OF assms] show ?case by simp
next
  case (Suc l)
  with dfsInvD(4) [OF assms] obtain p where "levels p = Some l" "(p, v) \<in> C" by blast
  with Suc.IH show ?case by auto
qed

lemma dfsInv_closed:
  assumes "dfsInv r C [] (visited, levels)"
  shows "(r, v) \<in> C\<^sup>* \<Longrightarrow> v \<in> visited"
proof (induction rule: rtrancl_induct)
  case base
  from dfsInvD(1,2) [OF assms] show ?case by auto
next
  case (step p c)
  with dfsInvD(6) [OF assms] show ?case by auto
qed

lemma calculateLevels_unfold:
  assumes "orElse rootNodeId (firstNodeId nodes) = Some r" "r \<noteq> []"
  shows "calculateLevels nodes edges rootNodeId ident
    = (case snd (dfs (buildAdjacencyList nodes edges) [(r, 0)] ({}, Map.empty)) ident of
         Some level \<Rightarrow> Some level
       | None \<Rightarrow> if ident \<in> node_id ` set nodes then Some 0 else None)"
  using assms by (simp add: calculateLevels_def Let_def fold_default_level)

lemma orElse_idem: "orElse (orElse a b) b = orElse a b"
  by (simp add: orElse_def split: option.splits)


subsection \<open>Example graphs\<close>

definition mkNode :: "string \<Rightarrow> NodeType \<Rightarrow> FlowNode" where
  "mkNode ident t =
     \<lparr> node_id = ident, node_type = t, position = originPosition,
       node_data = \<lparr> nd_type = t, nd_recordKey = None, nd_documentKey = None,
                     nd_versionId = None, nd_versionNumber = None, nd_title = ident,
                     nd_versions = None, nd_metadata = None, isExpanded = None,
                     childCount = None \<rparr> \<rparr>"

definition mkEdge :: "string \<Rightarrow> string \<Rightarrow> FlowEdge" where
  "mkEdge a b = createEdge a b ''is_parent_of''"

text \<open>
  Modelled from the spec's words: the default root the specification names, the first node
  with no incoming edge.
\<close>

definition firstWithoutIncoming :: "FlowNode list \<Rightarrow> FlowEdge list \<Rightarrow> string option" where
  "firstWithoutIncoming nodes edges =
     map_option node_id
       (find (\<lambda>node. \<not> list_ex (\<lambda>edge. target edge = node_id node) edges) nodes)"

definition exLayoutNodes :: "FlowNode list" where
  "exLayoutNodes = [mkNode ''a'' RecordT, mkNode ''b'' RecordT, mkNode ''c'' RecordT,
                    mkNode ''d'' RecordT]"

definition exLayoutEdges :: "FlowEdge list" where
  "exLayoutEdges = [mkEdge ''a'' ''b'', mkEdge ''a'' ''c'', mkEdge ''b'' ''c'']"

lemmas layout_simps = calculateLevels_def buildAdjacencyList_def neighborsOf_def mapSet_def
  orElse_def firstNodeId_def mkNode_def mkEdge_def createEdge_def Let_def


text \<open>
  C8, as stated, fails on the nodes a, b with the edge b\<rightarrow>a and no root id: the first node
  with no incoming edge is b, from which a is at depth 1, but the layout starts at the first
  node, a, and gives both the level 0.
\<close>

theorem default_root_is_first_node:
  "firstWithoutIncoming [mkNode ''a'' RecordT, mkNode ''b'' RecordT] [mkEdge ''b'' ''a'']
     = Some ''b''
   \<and> calculateLevels [mkNode ''a'' RecordT, mkNode ''b'' RecordT] [mkEdge ''b'' ''a''] None ''a''
     = Some 0
   \<and> calculateLevels [mkNode ''a'' RecordT, mkNode ''b'' RecordT] [mkEdge ''b'' ''a''] None ''b''
     = Some 0
   \<and> calculateLevels [mkNode ''a'' RecordT, mkNode ''b'' RecordT] [mkEdge ''b'' ''a'']
       (Some ''b'') ''a'' = Some 1"
  by (simp add: firstWithoutIncoming_def layout_simps)


text \<open>
  C8, amended. The layout is a function of its arguments. With \<open>r\<close> the root, the given
  root id or else the id of the first node of the list, the levels are the depths of a
  traversal from \<open>r\<close>: \<open>r\<close> has level 0 and is the only id reachable from \<open>r\<close> with level 0;
  every id reachable from \<open>r\<close> has a level, which is the length of a path from \<open>r\<close> to it; an
  id at level \<open>l + 1\<close> has an edge from an id at level \<open>l\<close> that is reachable from \<open>r\<close>; and
  every node not reachable from \<open>r\<close> has level 0. So the ids reachable from \<open>r\<close> form a tree
  under \<open>r\<close>, along edges, in which the level is the depth. The nodes are positioned by these
  levels.
\<close>

theorem calculateLevels_depth:
  assumes root: "orElse rootNodeId (firstNodeId nodes) = Some r" and nonempty: "r \<noteq> []"
  shows "calculateLevels nodes edges rootNodeId r = Some 0
    \<and> (\<forall>v. (r, v) \<in> (edgeRel edges)\<^sup>* \<longrightarrow>
          (\<exists>l. calculateLevels nodes edges rootNodeId v = Some l \<and> (r, v) \<in> edgeRel edges ^^ l))
    \<and> (\<forall>v. (r, v) \<in> (edgeRel edges)\<^sup>* \<longrightarrow>
          calculateLevels nodes edges rootNodeId v = Some 0 \<longrightarrow> v = r)
    \<and> (\<forall>v l. calculateLevels nodes edges rootNodeId v = Some (Suc l) \<longrightarrow>
          (\<exists>p. (r, p) \<in> (edgeRel edges)\<^sup>* \<and> calculateLevels nodes edges rootNodeId p = Some l
             \<and> (p, v) \<in> edgeRel edges))
    \<and> (\<forall>node \<in> set nodes. (r, node_id node) \<notin> (edgeRel edges)\<^sup>* \<longrightarrow>
          calculateLevels nodes edges rootNodeId (node_id node) = Some 0)
    \<and> calculateLevels nodes edges None = calculateLevels nodes edges (firstNodeId nodes)
    \<and> (nodes \<noteq> [] \<longrightarrow>
          calculateLayout engine nodes edges direction rootNodeId
            = positionNodes engine nodes (calculateLevels nodes edges rootNodeId)
                (case direction of None \<Rightarrow> DirLR | Some d \<Rightarrow> d))"
proof -
  let ?C = "edgeRel edges" and ?L = "calculateLevels nodes edges rootNodeId"
  obtain visited levels
    where run: "dfs (buildAdjacencyList nodes edges) [(r, 0)] ({}, Map.empty) = (visited, levels)"
    by (cases "dfs (buildAdjacencyList nodes edges) [(r, 0)] ({}, Map.empty)")
  have inv: "dfsInv r ?C [] (visited, levels)"
    using dfs_start [of "buildAdjacencyList nodes edges" ?C r] neighborsOf_edgeRel run by simp
  have L: "?L ident = (case levels ident of
         Some level \<Rightarrow> Some level
       | None \<Rightarrow> if ident \<in> node_id ` set nodes then Some 0 else None)" for ident
    using calculateLevels_unfold [OF root nonempty] run by simp
  have reach: "levels v \<noteq> None" if "(r, v) \<in> ?C\<^sup>*" for v
  proof -
    from that have "v \<in> visited" by (rule dfsInv_closed [OF inv])
    with dfsInvD(1) [OF inv] show ?thesis by auto
  qed
  have 1: "?L r = Some 0" using dfsInvD(2) [OF inv] by (simp add: L)
  have 2: "\<forall>v. (r, v) \<in> ?C\<^sup>* \<longrightarrow> (\<exists>l. ?L v = Some l \<and> (r, v) \<in> ?C ^^ l)"
  proof (intro allI impI)
    fix v assume "(r, v) \<in> ?C\<^sup>*"
    with reach obtain l where l: "levels v = Some l" by blast
    then have "(r, v) \<in> ?C ^^ l" by (rule dfsInv_path [OF inv])
    with l show "\<exists>l. ?L v = Some l \<and> (r, v) \<in> ?C ^^ l" by (simp add: L)
  qed
  have 3: "\<forall>v. (r, v) \<in> ?C\<^sup>* \<longrightarrow> ?L v = Some 0 \<longrightarrow> v = r"
  proof (intro allI impI)
    fix v assume "(r, v) \<in> ?C\<^sup>*" and z: "?L v = Some 0"
    with reach obtain l where l: "levels v = Some l" by blast
    with z have "levels v = Some 0" by (simp add: L)
    with dfsInvD(3) [OF inv] show "v = r" by blast
  qed
  have 4: "\<forall>v l. ?L v = Some (Suc l) \<longrightarrow>
      (\<exists>p. (r, p) \<in> ?C\<^sup>* \<and> ?L p = Some l \<and> (p, v) \<in> ?C)"
  proof (intro allI impI)
    fix v l assume "?L v = Some (Suc l)"
    then have "levels v = Some (Suc l)" by (auto simp: L split: option.splits if_splits)
    with dfsInvD(4) [OF inv] obtain p where p: "levels p = Some l" "(p, v) \<in> ?C" by blast
    from p(1) have "(r, p) \<in> ?C ^^ l" by (rule dfsInv_path [OF inv])
    then have "(r, p) \<in> ?C\<^sup>*" by (rule relpow_imp_rtrancl)
    moreover from p have "?L p = Some l" by (simp add: L)
    ultimately show "\<exists>p. (r, p) \<in> ?C\<^sup>* \<and> ?L p = Some l \<and> (p, v) \<in> ?C" using p(2) by blast
  qed
  have 5: "\<forall>node \<in> set nodes. (r, node_id node) \<notin> ?C\<^sup>* \<longrightarrow> ?L (node_id node) = Some 0"
  proof (intro ballI impI)
    fix node assume n: "node \<in> set nodes" and u: "(r, node_id node) \<notin> ?C\<^sup>*"
    have "levels (node_id node) = None"
    proof (cases "levels (node_id node)")
      case None
      then show ?thesis .
    next
      case (Some l)
      then have "(r, node_id node) \<in> ?C ^^ l" by (rule dfsInv_path [OF inv])
      then have "(r, node_id node) \<in> ?C\<^sup>*" by (rule relpow_imp_rtrancl)
      with u show ?thesis by simp
    qed
    with n show "?L (node_id node) = Some 0" by (simp add: L)
  qed
  have 6: "calculateLevels nodes edges None = calculateLevels nodes edges (firstNodeId nodes)"
    by (simp add: calculateLevels_def orElse_def split: option.splits)
  have 7: "nodes \<noteq> [] \<longrightarrow>
          calculateLayout engine nodes edges direction rootNodeId
            = positionNodes engine nodes ?L (case direction of None \<Rightarrow> DirLR | Some d \<Rightarrow> d)"
    by (simp add: calculateLayout_def calculateLevels_def Let_def orElse_idem)
  from 1 2 3 4 5 6 7 show ?thesis by (intro conjI)
qed

theorem calculateLevels_depth_witness:
  "orElse None (firstNodeId exLayoutNodes) = Some ''a'' \<and> ''a'' \<noteq> []
   \<and> calculateLevels exLayoutNodes exLayoutEdges None ''a'' = Some 0
   \<and> calculateLevels exLayoutNodes exLayoutEdges None ''b'' = Some 1
   \<and> calculateLevels exLayoutNodes exLayoutEdges None ''c'' = Some 2
   \<and> (''a'', ''c'') \<in> edgeRel exLayoutEdges ^^ 2
   \<and> (\<exists>p. (''a'', p) \<in> (edgeRel exLayoutEdges)\<^sup>*
         \<and> calculateLevels exLayoutNodes exLayoutEdges None p = Some 1
         \<and> (p, ''c'') \<in> edgeRel exLayoutEdges)
   \<and> (''a'', ''d'') \<notin> (edgeRel exLayoutEdges)\<^sup>*
   \<and> calculateLevels exLayoutNodes exLayoutEdges None ''d'' = Some 0
   \<and> calculateLevels exLayoutNodes exLayoutEdges None
       = calculateLevels exLayoutNodes exLayoutEdges (Some ''a'')"
proof -
  let ?L = "calculateLevels exLayoutNodes exLayoutEdges None"
  have f: "firstNodeId exLayoutNodes = Some ''a''"
    by (simp add: firstNodeId_def exLayoutNodes_def mkNode_def)
  have r: "orElse None (firstNodeId exLayoutNodes) = Some ''a''"
    by (simp add: orElse_def f)
  have n: "''a'' \<noteq> []" by simp
  note T = calculateLevels_depth [OF r n, of exLayoutEdges "newLayoutEngine None None None None" None]
  have E: "edgeRel exLayoutEdges = {(''a'', ''b''), (''a'', ''c''), (''b'', ''c'')}"
    by (simp add: edgeRel_def exLayoutEdges_def mkEdge_def createEdge_def)
  have lb: "?L ''b'' = Some 1" and lc: "?L ''c'' = Some 2"
    by (simp_all add: exLayoutNodes_def exLayoutEdges_def layout_simps)
  have "(''a'', ''c'') \<in> edgeRel exLayoutEdges" by (simp add: E)
  then have "(''a'', ''c'') \<in> (edgeRel exLayoutEdges)\<^sup>*" by (rule r_into_rtrancl)
  with T [THEN conjunct2, THEN conjunct1]
  obtain l where "?L ''c'' = Some l" "(''a'', ''c'') \<in> edgeRel exLayoutEdges ^^ l" by blast
  with lc have p: "(''a'', ''c'') \<in> edgeRel exLayoutEdges ^^ 2" by simp
  have lc': "?L ''c'' = Some (Suc 1)" using lc by simp
  have q: "\<exists>p. (''a'', p) \<in> (edgeRel exLayoutEdges)\<^sup>* \<and> ?L p = Some 1
      \<and> (p, ''c'') \<in> edgeRel exLayoutEdges"
    using T [THEN conjunct2, THEN conjunct2, THEN conjunct2, THEN conjunct1, rule_format, OF lc'] .
  have u: "(''a'', ''d'') \<notin> (edgeRel exLayoutEdges)\<^sup>*"
  proof
    assume "(''a'', ''d'') \<in> (edgeRel exLayoutEdges)\<^sup>*"
    then have "''d'' = ''a'' \<or> ''d'' \<in> Range (edgeRel exLayoutEdges)"
      by (cases rule: rtranclE) auto
    then show False by (simp add: E)
  qed
  have m: "mkNode ''d'' RecordT \<in> set exLayoutNodes" by (simp add: exLayoutNodes_def)
  have u': "(''a'', node_id (mkNode ''d'' RecordT)) \<notin> (edgeRel exLayoutEdges)\<^sup>*"
    using u by (simp add: mkNode_def)
  have "?L (node_id (mkNode ''d'' RecordT)) = Some 0"
    using T [THEN conjunct2, THEN conjunct2, THEN conjunct2, THEN conjunct2, THEN conjunct1,
        rule_format, OF m u'] .
  then have ld: "?L ''d'' = Some 0" by (simp add: mkNode_def)
  from T [THEN conjunct2, THEN conjunct2, THEN conjunct2, THEN conjunct2, THEN conjunct2,
      THEN conjunct1] f
  have d: "calculateLevels exLayoutNodes exLayoutEdges None
       = calculateLevels exLayoutNodes exLayoutEdges (Some ''a'')" by simp
  from r n T [THEN conjunct1] lb lc p q u ld d show ?thesis by (intro conjI)
qed

text \<open>
  Where paths of different lengths lead from the root to an id, the traversal of the code
  decides, and with it the order of the edges: it goes into the first child before it
  looks at the second. With the edges a\<rightarrow>b, a\<rightarrow>c, b\<rightarrow>c it reaches c through b, at level 2, as
  above; with a\<rightarrow>c first it reaches c from a, at level 1.
\<close>

lemma calculateLevels_edge_order:
  "calculateLevels exLayoutNodes [mkEdge ''a'' ''c'', mkEdge ''a'' ''b'', mkEdge ''b'' ''c'']
     None ''c'' = Some 1"
  by (simp add: exLayoutNodes_def layout_simps)

section \<open>Expansion (useExpand.ts)\<close>

text \<open>
  The statements that every loop of \<open>expandNode\<close> and of \<open>expandNodeHelper\<close> repeats:
  \<open>if (!newNodes.find((n) => n.id === childNode.id)) newNodes.push(childNode)\<close>, and
  \<open>if (isEdgeUnique(newEdges, nodeId, id, linkType)) newEdges.push(createEdge(nodeId, id,
  linkType))\<close>. \<open>linkTypeOr\<close> is \<open>link?.linkType || fallback\<close>.
\<close>

definition pushNode :: "FlowNode \<Rightarrow> FlowNode list \<Rightarrow> FlowNode list" where
  "pushNode childNode newNodes =
     (if find (\<lambda>n. node_id n = node_id childNode) newNodes = None
      then newNodes @ [childNode] else newNodes)"

definition pushEdge :: "string \<Rightarrow> string \<Rightarrow> LinkType \<Rightarrow> FlowEdge list \<Rightarrow> FlowEdge list" where
  "pushEdge nodeId childId linkType newEdges =
     (if isEdgeUnique newEdges nodeId childId linkType
      then newEdges @ [createEdge nodeId childId linkType] else newEdges)"

definition linkTypeOr :: "LinkType option \<Rightarrow> LinkType \<Rightarrow> LinkType" where
  "linkTypeOr linkType fallback =
     (case linkType of Some t \<Rightarrow> if t \<noteq> [] then t else fallback | None \<Rightarrow> fallback)"

text \<open>
  \<open>collectLinkedRecords\<close> is always called with a fresh \<open>visited\<close> set, so its test of the
  set never holds: it returns the linked records the repository has, in link order.
\<close>

definition collectLinkedRecords :: "RecordNode \<Rightarrow> DataRepository \<Rightarrow> RecordNode list" where
  "collectLinkedRecords record repository =
     List.map_filter (\<lambda>link. getRecord repository (rl_recordKey link)) (r_linkedRecords record)"

definition collectLinkedDocuments :: "RecordNode \<Rightarrow> DataRepository \<Rightarrow> Document list" where
  "collectLinkedDocuments record repository =
     List.map_filter (\<lambda>link. getDocument repository (dl_documentKey link))
       (r_linkedDocuments record)"

text \<open>
  The variables a loop body writes: the node index, \<open>newNodes\<close>, \<open>newEdges\<close> and \<open>yOffset\<close>.
\<close>

type_synonym ExpandVars = "NodeIndex \<times> FlowNode list \<times> FlowEdge list \<times> rat"

text \<open>The two loops of the record branch (the same in \<open>expandNode\<close> and in the helper).\<close>

definition addLinkedRecord ::
  "string \<Rightarrow> RecordNode \<Rightarrow> rat \<Rightarrow> RecordNode \<Rightarrow> ExpandVars \<Rightarrow> ExpandVars" where
  "addLinkedRecord nodeId record baseXOffset linkedRecord = (\<lambda>(index, newNodes, newEdges, yOffset).
     case getOrCreateRecordNode index linkedRecord \<lparr> pos_x = baseXOffset, pos_y = yOffset \<rparr> of
       (index', childNode) \<Rightarrow>
         (index',
          pushNode childNode newNodes,
          pushEdge nodeId (node_id childNode)
            (linkTypeOr (map_option rl_linkType
                 (find (\<lambda>l. rl_recordKey l = recordKey linkedRecord) (r_linkedRecords record)))
               ''related_to'')
            newEdges,
          yOffset + 120))"

definition addLinkedDocument ::
  "string \<Rightarrow> RecordNode \<Rightarrow> rat \<Rightarrow> Document \<Rightarrow> ExpandVars \<Rightarrow> ExpandVars" where
  "addLinkedDocument nodeId record baseXOffset linkedDoc = (\<lambda>(index, newNodes, newEdges, yOffset).
     case getOrCreateDocumentNode index linkedDoc \<lparr> pos_x = baseXOffset, pos_y = yOffset \<rparr> of
       (index', childNode) \<Rightarrow>
         (index',
          pushNode childNode newNodes,
          pushEdge nodeId (node_id childNode)
            (linkTypeOr (map_option dl_linkType
                 (find (\<lambda>l. dl_documentKey l = documentKey linkedDoc) (r_linkedDocuments record)))
               ''references'')
            newEdges,
          yOffset + 140))"

text \<open>The loop over the versions of a document.\<close>

definition addVersion ::
  "string \<Rightarrow> Document \<Rightarrow> rat \<Rightarrow> DocumentVersion \<Rightarrow> ExpandVars \<Rightarrow> ExpandVars" where
  "addVersion nodeId document baseXOffset version = (\<lambda>(index, newNodes, newEdges, yOffset).
     case getOrCreateDocumentVersionNode index (documentKey document) version
            \<lparr> pos_x = baseXOffset + 80, pos_y = yOffset \<rparr> of
       (index', versionNode) \<Rightarrow>
         (index',
          pushNode versionNode newNodes,
          pushEdge nodeId (node_id versionNode) ''is_parent_of'' newEdges,
          yOffset + 90))"

text \<open>
  The loop over the linked records of a document in \<open>expandNode\<close>. The loop over the
  versions stands inside the \<open>if\<close> that pushes a linked record's node: it runs once for every
  linked record whose node was not yet among \<open>newNodes\<close>, and not at all otherwise.
\<close>

definition addDocumentRecord ::
  "string \<Rightarrow> Document \<Rightarrow> DataRepository \<Rightarrow> rat \<Rightarrow> RecordLink \<Rightarrow> ExpandVars \<Rightarrow> ExpandVars" where
  "addDocumentRecord nodeId document repository baseXOffset linkRecord =
     (\<lambda>(index, newNodes, newEdges, yOffset).
       case getRecord repository (rl_recordKey linkRecord) of
         None \<Rightarrow> (index, newNodes, newEdges, yOffset)
       | Some linkedRecord \<Rightarrow>
           (case getOrCreateRecordNode index linkedRecord
                   \<lparr> pos_x = baseXOffset, pos_y = yOffset \<rparr> of
              (index1, childNode) \<Rightarrow>
                (case (if find (\<lambda>n. node_id n = node_id childNode) newNodes = None
                       then fold (addVersion nodeId document baseXOffset) (versions document)
                              (index1, newNodes @ [childNode], newEdges, yOffset)
                       else (index1, newNodes, newEdges, yOffset)) of
                   (index2, nodes2, edges2, yOffset2) \<Rightarrow>
                     (index2, nodes2,
                      pushEdge nodeId (node_id childNode)
                        (linkTypeOr (Some (rl_linkType linkRecord)) ''references'') edges2,
                      yOffset2 + 120))))"

definition addDocumentDocument ::
  "string \<Rightarrow> DataRepository \<Rightarrow> rat \<Rightarrow> LinkType \<Rightarrow> DocumentLink \<Rightarrow> ExpandVars \<Rightarrow> ExpandVars" where
  "addDocumentDocument nodeId repository baseXOffset fallback linkDoc =
     (\<lambda>(index, newNodes, newEdges, yOffset).
       case getDocument repository (dl_documentKey linkDoc) of
         None \<Rightarrow> (index, newNodes, newEdges, yOffset)
       | Some linkedDoc \<Rightarrow>
           (case getOrCreateDocumentNode index linkedDoc
                   \<lparr> pos_x = baseXOffset, pos_y = yOffset \<rparr> of
              (index', childNode) \<Rightarrow>
                (index',
                 pushNode childNode newNodes,
                 pushEdge nodeId (node_id childNode)
                   (linkTypeOr (Some (dl_linkType linkDoc)) fallback) newEdges,
                 yOffset + 140)))"

text \<open>The loop over the linked records of a document in \<open>expandNodeHelper\<close>.\<close>

definition addDocumentRecordHelper ::
  "string \<Rightarrow> DataRepository \<Rightarrow> rat \<Rightarrow> RecordLink \<Rightarrow> ExpandVars \<Rightarrow> ExpandVars" where
  "addDocumentRecordHelper nodeId repository baseXOffset linkRecord =
     (\<lambda>(index, newNodes, newEdges, yOffset).
       case getRecord repository (rl_recordKey linkRecord) of
         None \<Rightarrow> (index, newNodes, newEdges, yOffset)
       | Some linkedRecord \<Rightarrow>
           (case getOrCreateRecordNode index linkedRecord
                   \<lparr> pos_x = baseXOffset, pos_y = yOffset \<rparr> of
              (index', childNode) \<Rightarrow>
                (index',
                 pushNode childNode newNodes,
                 pushEdge nodeId (node_id childNode)
                   (linkTypeOr (Some (rl_linkType linkRecord)) ''is_parent_of'') newEdges,
                 yOffset + 120)))"

definition markExpanded :: "string \<Rightarrow> FlowNode list \<Rightarrow> FlowNode list" where
  "markExpanded nodeId newNodes =
     map (\<lambda>n. if node_id n = nodeId
               then n\<lparr>node_data := (node_data n)\<lparr>isExpanded := Some True\<rparr>\<rparr> else n) newNodes"

text \<open>
  The end of both functions: mark the source node, lay the nodes out from it, and return
  the nodes and edges (with the node index, which the loops have written).
\<close>

definition finishExpand ::
  "string \<Rightarrow> Direction \<Rightarrow> ExpandVars \<Rightarrow> NodeIndex \<times> FlowNode list \<times> FlowEdge list" where
  "finishExpand nodeId direction = (\<lambda>(index, newNodes, newEdges, yOffset).
     (index,
      calculateHierarchicalLayout (markExpanded nodeId newNodes) newEdges (Some nodeId)
        (Some direction),
      newEdges))"

text \<open>
  \<open>expandNode\<close> of the hook \<open>useExpand\<close>. The node index and the layout direction are those of
  the hook's initial state; \<open>layoutDirection || 'TB'\<close> is the direction of the layout.
\<close>

definition expandNode ::
  "NodeIndex \<Rightarrow> Direction option \<Rightarrow> string \<Rightarrow> FlowNode list \<Rightarrow> FlowEdge list \<Rightarrow> DataRepository
   \<Rightarrow> NodeIndex \<times> FlowNode list \<times> FlowEdge list" where
  "expandNode index layoutDirection nodeId nodes edges repository =
     (case find (\<lambda>n. node_id n = nodeId) nodes of
        None \<Rightarrow> (index, nodes, edges)
      | Some sourceNode \<Rightarrow>
          (let baseXOffset = pos_x (position sourceNode) + 250;
               yOffset = pos_y (position sourceNode) - 100;
               direction = (case layoutDirection of None \<Rightarrow> DirTB | Some d \<Rightarrow> d)
           in if node_type sourceNode = RecordT then
                (case nd_recordKey (node_data sourceNode) of
                   None \<Rightarrow> (index, nodes, edges)
                 | Some key \<Rightarrow>
                     if key = [] then (index, nodes, edges)
                     else (case getRecord repository key of
                             None \<Rightarrow> (index, nodes, edges)
                           | Some record \<Rightarrow>
                               finishExpand nodeId direction
                                 (fold (addLinkedDocument nodeId record baseXOffset)
                                    (collectLinkedDocuments record repository)
                                    (fold (addLinkedRecord nodeId record baseXOffset)
                                       (collectLinkedRecords record repository)
                                       (index, nodes, edges, yOffset)))))
              else if node_type sourceNode = DocumentT then
                (case nd_documentKey (node_data sourceNode) of
                   None \<Rightarrow> (index, nodes, edges)
                 | Some key \<Rightarrow>
                     if key = [] then (index, nodes, edges)
                     else (case getDocument repository key of
                             None \<Rightarrow> (index, nodes, edges)
                           | Some document \<Rightarrow>
                               finishExpand nodeId direction
                                 (fold (addDocumentDocument nodeId repository baseXOffset
                                          ''references'')
                                    (d_linkedDocuments document)
                                    (fold (addDocumentRecord nodeId document repository
                                             baseXOffset)
                                       (d_linkedRecords document)
                                       (index, nodes, edges, yOffset)))))
              else finishExpand nodeId direction (index, nodes, edges, yOffset)))"

text \<open>
  \<open>expandNodeHelper\<close>, the standalone copy that \<open>expandNodePath\<close> calls. Its document branch
  runs the loop over the versions after the two loops over the links, for every document.
\<close>

definition expandNodeHelper ::
  "string \<Rightarrow> FlowNode list \<Rightarrow> FlowEdge list \<Rightarrow> DataRepository \<Rightarrow> NodeIndex
   \<Rightarrow> NodeIndex \<times> FlowNode list \<times> FlowEdge list" where
  "expandNodeHelper nodeId nodes edges repository nodeIndex =
     (case find (\<lambda>n. node_id n = nodeId) nodes of
        None \<Rightarrow> (nodeIndex, nodes, edges)
      | Some sourceNode \<Rightarrow>
          (let baseXOffset = pos_x (position sourceNode) + 250;
               yOffset = pos_y (position sourceNode) - 100
           in if node_type sourceNode = RecordT then
                (case nd_recordKey (node_data sourceNode) of
                   None \<Rightarrow> (nodeIndex, nodes, edges)
                 | Some key \<Rightarrow>
                     if key = [] then (nodeIndex, nodes, edges)
                     else (case getRecord repository key of
                             None \<Rightarrow> (nodeIndex, nodes, edges)
                           | Some record \<Rightarrow>
                               finishExpand nodeId DirTB
                                 (fold (addLinkedDocument nodeId record baseXOffset)
                                    (collectLinkedDocuments record repository)
                                    (fold (addLinkedRecord nodeId record baseXOffset)
                                       (collectLinkedRecords record repository)
                                       (nodeIndex, nodes, edges, yOffset)))))
              else if node_type sourceNode = DocumentT then
                (case nd_documentKey (node_data sourceNode) of
                   None \<Rightarrow> (nodeIndex, nodes, edges)
                 | Some key \<Rightarrow>
                     if key = [] then (nodeIndex, nodes, edges)
                     else (case getDocument repository key of
                             None \<Rightarrow> (nodeIndex, nodes, edges)
                           | Some document \<Rightarrow>
                               finishExpand nodeId DirTB
                                 (fold (addVersion nodeId document baseXOffset)
                                    (versions document)
                                    (fold (addDocumentDocument nodeId repository baseXOffset
                                             ''is_parent_of'')
                                       (d_linkedDocuments document)
                                       (fold (addDocumentRecordHelper nodeId repository
                                                baseXOffset)
                                          (d_linkedRecords document)
                                          (nodeIndex, nodes, edges, yOffset))))))
              else finishExpand nodeId DirTB (nodeIndex, nodes, edges, yOffset)))"

text \<open>
  \<open>findAncestors\<close>, with the pending iterations of its closure on an explicit stack of
  edges: an edge whose source is already an ancestor is passed over, and otherwise the
  source is added and its incoming edges are handled before the edges that were pending.
\<close>

function collectAncestors :: "FlowEdge list \<Rightarrow> FlowEdge list \<Rightarrow> string list \<Rightarrow> string list" where
  "collectAncestors edges [] ancestors = ancestors"
| "collectAncestors edges (edge # pending) ancestors =
     (if source edge \<in> set ancestors then collectAncestors edges pending ancestors
      else collectAncestors edges
             (filter (\<lambda>e. target e = source edge) edges @ pending)
             (ancestors @ [source edge]))"
  by pat_completeness auto

termination collectAncestors
proof (relation "inv_image (less_than <*lex*> less_than)
    (\<lambda>(edges, pending, ancestors).
       (card (source ` (set edges \<union> set pending) - set ancestors), length pending))",
    goal_cases)
  case 1
  show ?case by (intro wf_inv_image wf_lex_prod wf_less_than)
next
  case (2 edges edge pending ancestors)
  have "source ` (set edges \<union> set pending) - set ancestors
      \<subseteq> source ` (set edges \<union> set (edge # pending)) - set ancestors"
    by auto
  then have "card (source ` (set edges \<union> set pending) - set ancestors)
      \<le> card (source ` (set edges \<union> set (edge # pending)) - set ancestors)"
    by (intro card_mono) simp_all
  then show ?case by auto
next
  case (3 edges edge pending ancestors)
  have "source ` (set edges \<union> set (filter (\<lambda>e. target e = source edge) edges @ pending))
          - set (ancestors @ [source edge])
      \<subset> source ` (set edges \<union> set (edge # pending)) - set ancestors"
    using 3 by auto
  then have "card (source ` (set edges \<union> set (filter (\<lambda>e. target e = source edge) edges @ pending))
          - set (ancestors @ [source edge]))
      < card (source ` (set edges \<union> set (edge # pending)) - set ancestors)"
    by (intro psubset_card_mono) simp_all
  then show ?case by simp
qed

definition findAncestors :: "string \<Rightarrow> FlowEdge list \<Rightarrow> string list" where
  "findAncestors nodeId edges =
     collectAncestors edges (filter (\<lambda>e. target e = nodeId) edges) []"

definition expandNodePath ::
  "string \<Rightarrow> FlowNode list \<Rightarrow> FlowEdge list \<Rightarrow> DataRepository \<Rightarrow> NodeIndex
   \<Rightarrow> NodeIndex \<times> FlowNode list \<times> FlowEdge list" where
  "expandNodePath targetNodeId nodes edges repository nodeIndex =
     fold (\<lambda>ancestorId (index, currentNodes, currentEdges).
             expandNodeHelper ancestorId currentNodes currentEdges repository index)
       (findAncestors targetNodeId edges) (nodeIndex, nodes, edges)"

section \<open>Node click (FlowWidget.tsx)\<close>

text \<open>
  The state of the widget that \<open>handleNodeClick\<close> reads and sets. The handler collapses a
  node whose flag is set and expands it otherwise. The descendants are found by
  \<open>getNodeDescendants\<close>, which may exhaust the call stack (\<open>None\<close>): then no state is set.
  The first argument is the number of stack frames available.
\<close>

record WidgetState =
  ws_nodes :: "FlowNode list"
  ws_edges :: "FlowEdge list"
  ws_expandedState :: ExpandedState
  ws_nodeIndex :: NodeIndex

definition handleNodeClick ::
  "nat \<Rightarrow> DataRepository \<Rightarrow> Direction option \<Rightarrow> string \<Rightarrow> WidgetState \<Rightarrow> WidgetState option" where
  "handleNodeClick depth repository layoutDirection flowNodeId state =
     (if (case ws_expandedState state flowNodeId of None \<Rightarrow> False | Some b \<Rightarrow> b)
      then (case getNodeDescendants depth flowNodeId (ws_nodes state) (ws_edges state) of
              None \<Rightarrow> None
            | Some descendants \<Rightarrow>
                Some (state\<lparr>
                  ws_nodes := filter (\<lambda>n. node_id n = flowNodeId \<or> node_id n \<notin> set descendants)
                                (ws_nodes state),
                  ws_edges := filter (\<lambda>e. source e \<noteq> flowNodeId
                                           \<and> source e \<notin> set descendants
                                           \<and> target e \<notin> set descendants)
                                (ws_edges state),
                  ws_expandedState := (ws_expandedState state)(flowNodeId \<mapsto> False) \<rparr>))
      else (case expandNode (ws_nodeIndex state) layoutDirection flowNodeId (ws_nodes state)
                   (ws_edges state) repository of
              (index, expandedNodes, expandedEdges) \<Rightarrow>
                Some \<lparr> ws_nodes = expandedNodes,
                       ws_edges = expandedEdges,
                       ws_expandedState = (ws_expandedState state)(flowNodeId \<mapsto> True),
                       ws_nodeIndex = index \<rparr>))"

text \<open>\<open>removeNodeWithDescendants\<close>, the utility of the hook module, removes the node as well.\<close>

definition removeNodeWithDescendants ::
  "nat \<Rightarrow> string \<Rightarrow> FlowNode list \<Rightarrow> FlowEdge list \<Rightarrow> (FlowNode list \<times> FlowEdge list) option" where
  "removeNodeWithDescendants depth nodeId nodes edges =
     (case getNodeDescendants depth nodeId nodes edges of
        None \<Rightarrow> None
      | Some descendantIds \<Rightarrow>
          Some (filter (\<lambda>n. node_id n \<notin> set (nodeId # descendantIds)) nodes,
                filter (\<lambda>e. source e \<notin> set (nodeId # descendantIds)
                           \<and> target e \<notin> set (nodeId # descendantIds)) edges))"

section \<open>Expanding a document, collapsing a chain\<close>

definition exDesign :: Document where
  "exDesign = mkDocument ''D3'' ''Design'' [exV1, exV2] [] []"

definition exDesignRepository :: DataRepository where
  "exDesignRepository = snd (createDataRepository (\<lambda>r. exDesign) [] [0])"

definition exDesignIndex :: NodeIndex where
  "exDesignIndex = fst (getOrCreateDocumentNode createNodeIndex exDesign originPosition)"

definition exDesignNode :: FlowNode where
  "exDesignNode = snd (getOrCreateDocumentNode createNodeIndex exDesign originPosition)"

lemma exDesign_lookup: "getDocument exDesignRepository ''D3'' = Some exDesign"
  by (simp add: exDesignRepository_def createDataRepository_def deduplicateDocuments_def
      dedupDocument_def deduplicateRecords_def mapFromEntries_def getDocument_def
      mapHas_def mapSet_def mapValues_def Let_def exDesign_def mkDocument_def)

lemma exDesign_fields:
  "versions exDesign = [exV1, exV2]" "d_linkedRecords exDesign = []"
  "d_linkedDocuments exDesign = []" "documentKey exDesign = ''D3''"
  by (simp_all add: exDesign_def mkDocument_def)

lemma exDesignNode_fields:
  "node_id exDesignNode = ''document-D3''" "node_type exDesignNode = DocumentT"
  "nd_documentKey (node_data exDesignNode) = Some ''D3''"
  "position exDesignNode = originPosition"
  by (simp_all add: exDesignNode_def getOrCreateDocumentNode_def createNodeIndex_def Let_def
      createDocumentNodeId_def exDesign_fields)

lemma layout_single:
  "node_id n = r \<Longrightarrow> r \<noteq> [] \<Longrightarrow>
   calculateHierarchicalLayout [n] [] (Some r) (Some DirTB)
     = [n\<lparr>position := \<lparr> pos_x = - 210, pos_y = 0 \<rparr>\<rparr>]"
  by (simp add: calculateHierarchicalLayout_def calculateLayout_def calculateLevels_def
      positionNodes_def groupByLevel_def addToGroup_def buildAdjacencyList_def neighborsOf_def levelOf_def
      newLayoutEngine_def orElse_def firstNodeId_def mapHas_def mapSet_def sortBy_def Let_def)

lemma expandNode_exDesign:
  "expandNode exDesignIndex None ''document-D3'' [exDesignNode] [] exDesignRepository
     = (exDesignIndex,
        [exDesignNode\<lparr> node_data := (node_data exDesignNode)\<lparr>isExpanded := Some True\<rparr>,
                       position := \<lparr> pos_x = - 210, pos_y = 0 \<rparr> \<rparr>],
        [])"
  by (simp add: expandNode_def exDesignNode_fields exDesign_lookup exDesign_fields
      finishExpand_def markExpanded_def layout_single Let_def)

text \<open>
  C3. The document D3 of the repository has two versions and no links. Expanding its
  node, the only visible node, with \<open>expandNode\<close> returns that node alone and no edge: no
  version node is made.
\<close>

theorem expandNode_document_without_links:
  "getDocument exDesignRepository ''D3'' = Some exDesign
   \<and> versions exDesign = [exV1, exV2]
   \<and> node_type exDesignNode = DocumentT
   \<and> nd_documentKey (node_data exDesignNode) = Some ''D3''
   \<and> map (\<lambda>n. (node_id n, node_type n))
        (fst (snd (expandNode exDesignIndex None ''document-D3'' [exDesignNode] []
                     exDesignRepository)))
       = [(''document-D3'', DocumentT)]
   \<and> snd (snd (expandNode exDesignIndex None ''document-D3'' [exDesignNode] []
                  exDesignRepository)) = []"
  by (simp add: expandNode_exDesign exDesign_lookup exDesign_fields exDesignNode_fields)

text \<open>
  On the same input \<open>expandNodeHelper\<close> makes a node for each of the two versions, and an
  edge of type \<open>is_parent_of\<close> to each.
\<close>

lemma expandNodeHelper_exDesign:
  "map (\<lambda>n. (node_id n, node_type n))
     (fst (snd (expandNodeHelper ''document-D3'' [exDesignNode] [] exDesignRepository
                  exDesignIndex)))
     = [(''document-D3'', DocumentT), (''version-v1'', DocumentVersionT),
        (''version-v2'', DocumentVersionT)]"
  "map (\<lambda>e. (source e, target e, edge_linkType e))
     (snd (snd (expandNodeHelper ''document-D3'' [exDesignNode] [] exDesignRepository
                  exDesignIndex)))
     = [(''document-D3'', ''version-v1'', Some ''is_parent_of''),
        (''document-D3'', ''version-v2'', Some ''is_parent_of'')]"
  by code_simp+

text \<open>The ancestor closure is guarded: on the cycle A\<rightarrow>B\<rightarrow>A it returns B and A.\<close>

lemma findAncestors_cycle:
  "findAncestors ''A'' [mkEdge ''A'' ''B'', mkEdge ''B'' ''A''] = [''B'', ''A'']"
  by (simp add: findAncestors_def mkEdge_def createEdge_def)

lemma setAdd_new: "v \<notin> set s \<Longrightarrow> setAdd v s = s @ [v]"
  by (simp add: setAdd_def)

lemma collect_chain:
  assumes dist: "distinct [a, b, c, d]"
    and targets: "target e1 = b" "target e2 = c" "target e3 = d"
    and fa: "filter (\<lambda>e. source e = a) es = [e1]"
    and fb: "filter (\<lambda>e. source e = b) es = [e2]"
    and fc: "filter (\<lambda>e. source e = c) es = [e3]"
    and fd: "filter (\<lambda>e. source e = d) es = []"
  shows "collect (Suc (Suc (Suc (Suc k)))) es a [] = Some [b, c, d]"
proof -
  from dist have ne: "d \<noteq> b" "d \<noteq> c" "c \<noteq> b" "b \<noteq> c" "b \<noteq> d" "c \<noteq> d"
    by auto
  have 1: "collect (Suc k) es d [b, c, d] = Some [b, c, d]"
    by (simp add: fd)
  have 2: "collect (Suc (Suc k)) es c [b, c] = Some [b, c, d]"
    by (subst collect.simps(2))
       (use ne in \<open>simp add: fc targets setAdd_def 1 del: collect.simps\<close>)
  have 3: "collect (Suc (Suc (Suc k))) es b [b] = Some [b, c, d]"
    by (subst collect.simps(2))
       (use ne in \<open>simp add: fb targets setAdd_def 2 del: collect.simps\<close>)
  show ?thesis
    by (subst collect.simps(2))
       (use ne in \<open>simp add: fa targets setAdd_def 3 del: collect.simps\<close>)
qed

lemma getNodeDescendants_chain:
  assumes dist: "distinct [a, b, c, d]"
    and chain: "source e1 = a" "target e1 = b" "source e2 = b" "target e2 = c"
      "source e3 = c" "target e3 = d"
    and extra: "\<forall>e \<in> set extra. source e \<notin> {a, b, c, d}"
    and depth: "4 \<le> depth"
  shows "getNodeDescendants depth a nodes (e1 # e2 # e3 # extra) = Some [b, c, d]"
proof -
  from depth obtain k where "depth = 4 + k" by (auto simp: le_iff_add)
  then have m: "depth = Suc (Suc (Suc (Suc k)))" by simp
  have none: "filter (\<lambda>e. source e = v) extra = []" if "v \<in> {a, b, c, d}" for v
    using extra that by (auto simp: filter_empty_conv)
  have fa: "filter (\<lambda>e. source e = a) (e1 # e2 # e3 # extra) = [e1]"
    using dist chain none [of a] by auto
  have fb: "filter (\<lambda>e. source e = b) (e1 # e2 # e3 # extra) = [e2]"
    using dist chain none [of b] by auto
  have fc: "filter (\<lambda>e. source e = c) (e1 # e2 # e3 # extra) = [e3]"
    using dist chain none [of c] by auto
  have fd: "filter (\<lambda>e. source e = d) (e1 # e2 # e3 # extra) = []"
    using dist chain none [of d] by auto
  show ?thesis unfolding getNodeDescendants_def m
    using dist chain(2,4,6) fa fb fc fd by (rule collect_chain)
qed

lemma handleNodeClick_chain:
  assumes dist: "distinct [a, b, c, d]"
    and chain: "source e1 = a" "target e1 = b" "source e2 = b" "target e2 = c"
      "source e3 = c" "target e3 = d"
    and extra: "\<forall>e \<in> set extra. source e \<notin> {a, b, c, d}"
    and edges: "ws_edges state = e1 # e2 # e3 # extra"
    and expanded: "ws_expandedState state a = Some True"
    and depth: "4 \<le> depth"
  shows "handleNodeClick depth repository layoutDirection a state =
     Some (state\<lparr> ws_nodes := filter (\<lambda>n. node_id n \<notin> {b, c, d}) (ws_nodes state),
                  ws_edges := filter (\<lambda>e. target e \<notin> {b, c, d}) extra,
                  ws_expandedState := (ws_expandedState state)(a \<mapsto> False) \<rparr>)"
proof -
  have desc: "getNodeDescendants depth a (ws_nodes state) (ws_edges state) = Some [b, c, d]"
    unfolding edges using dist chain extra depth by (rule getNodeDescendants_chain)
  have n: "filter (\<lambda>n. node_id n = a \<or> node_id n \<notin> set [b, c, d]) (ws_nodes state)
      = filter (\<lambda>n. node_id n \<notin> {b, c, d}) (ws_nodes state)"
    using dist by (intro filter_cong) auto
  have "filter (\<lambda>e. source e \<noteq> a \<and> source e \<notin> set [b, c, d] \<and> target e \<notin> set [b, c, d]) extra
      = filter (\<lambda>e. target e \<notin> {b, c, d}) extra"
    using extra by (intro filter_cong) auto
  then have e: "filter (\<lambda>e. source e \<noteq> a \<and> source e \<notin> set [b, c, d] \<and> target e \<notin> set [b, c, d])
        (ws_edges state)
      = filter (\<lambda>e. target e \<notin> {b, c, d}) extra"
    unfolding edges using chain by simp
  show ?thesis
    unfolding handleNodeClick_def expanded desc
    by (simp only: option.case if_True n e)
qed


definition exChainState :: WidgetState where
  "exChainState =
     \<lparr> ws_nodes = [mkNode ''A'' RecordT, mkNode ''B'' RecordT, mkNode ''C'' RecordT,
                   mkNode ''D'' RecordT, mkNode ''X'' RecordT],
       ws_edges = [mkEdge ''A'' ''B'', mkEdge ''B'' ''C'', mkEdge ''C'' ''D'',
                   mkEdge ''X'' ''B''],
       ws_expandedState = [''B'' \<mapsto> True, ''A'' \<mapsto> True],
       ws_nodeIndex = createNodeIndex \<rparr>"

lemma exChainState_collapse:
  "handleNodeClick 4 exDesignRepository None ''A'' exChainState =
     Some (exChainState\<lparr> ws_nodes := [mkNode ''A'' RecordT, mkNode ''X'' RecordT],
                         ws_edges := [],
                         ws_expandedState := [''B'' \<mapsto> True, ''A'' \<mapsto> False] \<rparr>)"
proof -
  have "handleNodeClick 4 exDesignRepository None ''A'' exChainState =
     Some (exChainState\<lparr>
        ws_nodes := filter (\<lambda>n. node_id n \<notin> {''B'', ''C'', ''D''}) (ws_nodes exChainState),
        ws_edges := filter (\<lambda>e. target e \<notin> {''B'', ''C'', ''D''}) [mkEdge ''X'' ''B''],
        ws_expandedState := (ws_expandedState exChainState)(''A'' \<mapsto> False) \<rparr>)"
    by (rule handleNodeClick_chain [of "''A''" "''B''" "''C''" "''D''"
          "mkEdge ''A'' ''B''" "mkEdge ''B'' ''C''" "mkEdge ''C'' ''D''"])
       (simp_all add: exChainState_def mkEdge_def createEdge_def)
  then show ?thesis
    by (simp add: exChainState_def mkNode_def mkEdge_def createEdge_def)
qed


text \<open>
  C5. In a visible graph that holds the chain a\<rightarrow>b\<rightarrow>c\<rightarrow>d, with any nodes and any further
  edges that do not start in the chain, collapsing the expanded node a returns (four stack
  frames suffice) and keeps exactly the nodes whose id is not b, c or d, so the node a
  stays, and exactly the further edges that do not end in b, c or d: the three edges of the
  chain and every edge into the closure are removed. The flag of a is cleared.
\<close>

theorem collapse_chain:
  assumes "distinct [a, b, c, d]"
    and "source e1 = a" "target e1 = b" "source e2 = b" "target e2 = c"
      "source e3 = c" "target e3 = d"
    and "\<forall>e \<in> set extra. source e \<notin> {a, b, c, d}"
    and "ws_edges state = e1 # e2 # e3 # extra"
    and "ws_expandedState state a = Some True"
    and "4 \<le> depth"
  shows "handleNodeClick depth repository layoutDirection a state =
     Some (state\<lparr> ws_nodes := filter (\<lambda>n. node_id n \<notin> {b, c, d}) (ws_nodes state),
                  ws_edges := filter (\<lambda>e. target e \<notin> {b, c, d}) extra,
                  ws_expandedState := (ws_expandedState state)(a \<mapsto> False) \<rparr>)"
  using assms by (rule handleNodeClick_chain)


theorem collapse_chain_witness:
  "distinct [''A'', ''B'', ''C'', ''D'']
   \<and> ws_edges exChainState
       = [mkEdge ''A'' ''B'', mkEdge ''B'' ''C'', mkEdge ''C'' ''D'', mkEdge ''X'' ''B'']
   \<and> ws_expandedState exChainState ''A'' = Some True
   \<and> handleNodeClick 4 exDesignRepository None ''A'' exChainState =
       Some (exChainState\<lparr> ws_nodes := [mkNode ''A'' RecordT, mkNode ''X'' RecordT],
                           ws_edges := [],
                           ws_expandedState := [''B'' \<mapsto> True, ''A'' \<mapsto> False] \<rparr>)"
proof -
  have "handleNodeClick 4 exDesignRepository None ''A'' exChainState =
     Some (exChainState\<lparr>
        ws_nodes := filter (\<lambda>n. node_id n \<notin> {''B'', ''C'', ''D''}) (ws_nodes exChainState),
        ws_edges := filter (\<lambda>e. target e \<notin> {''B'', ''C'', ''D''}) [mkEdge ''X'' ''B''],
        ws_expandedState := (ws_expandedState exChainState)(''A'' \<mapsto> False) \<rparr>)"
    by (rule collapse_chain [of "''A''" "''B''" "''C''" "''D''"
          "mkEdge ''A'' ''B''" "mkEdge ''B'' ''C''" "mkEdge ''C'' ''D''"])
       (simp_all add: exChainState_def mkEdge_def createEdge_def)
  then show ?thesis
    by (simp add: exChainState_def mkNode_def mkEdge_def createEdge_def)
qed


text \<open>
  The flags after a collapse. When the collapse of an expanded node \<open>n\<close> returns, it has
  changed the flags at \<open>n\<close> only, where the flag is false now; the flag of every other id, a
  removed descendant's too, is what it was.
\<close>

lemma collapse_flags:
  assumes "ws_expandedState state n = Some True"
    and "handleNodeClick depth repository layoutDirection n state = Some state'"
  shows "ws_expandedState state' = (ws_expandedState state)(n \<mapsto> False)
    \<and> (\<forall>m. m \<noteq> n \<longrightarrow> ws_expandedState state' m = ws_expandedState state m)"
  using assms by (auto simp: handleNodeClick_def split: option.splits)

lemma collapse_flags_chain:
  "ws_expandedState exChainState ''A'' = Some True
   \<and> ws_expandedState exChainState ''B'' = Some True
   \<and> (\<exists>state'. handleNodeClick 4 exDesignRepository None ''A'' exChainState = Some state'
        \<and> ws_expandedState state' ''A'' = Some False
        \<and> ws_expandedState state' ''B'' = Some True
        \<and> map node_id (ws_nodes state') = [''A'', ''X''])"
proof -
  let ?s = "exChainState\<lparr> ws_nodes := [mkNode ''A'' RecordT, mkNode ''X'' RecordT],
                         ws_edges := [],
                         ws_expandedState := [''B'' \<mapsto> True, ''A'' \<mapsto> False] \<rparr>"
  have a: "ws_expandedState exChainState ''A'' = Some True"
    and b: "ws_expandedState exChainState ''B'' = Some True"
    by (simp_all add: exChainState_def)
  note T = collapse_flags [OF a exChainState_collapse]
  from T have "ws_expandedState ?s ''A'' = Some False" by simp
  moreover from T b have "ws_expandedState ?s ''B'' = Some True" by simp
  moreover have "map node_id (ws_nodes ?s) = [''A'', ''X'']" by (simp add: mkNode_def)
  ultimately show ?thesis using a b exChainState_collapse
    by (intro conjI exI [of _ ?s])
qed

text \<open>
  The collapse returns when no cycle lies below the node: when the ids can be ranked so
  that every edge goes from a higher rank to a lower one, as many stack frames as the rank
  of the node, and one more, are enough.
\<close>

lemma forEachM_returns:
  "(\<And>v s. v \<in> set vs \<Longrightarrow> \<exists>s'. f v s = Some s') \<Longrightarrow> \<exists>s'. forEachM f vs s = Some s'"
proof (induction vs arbitrary: s)
  case Nil
  show ?case by simp
next
  case (Cons v vs)
  from Cons.prems [of v s] obtain s1 where s1: "f v s = Some s1" by auto
  from Cons.IH [of s1] Cons.prems obtain s2 where "forEachM f vs s1 = Some s2" by auto
  with s1 show ?case by simp
qed

lemma collect_returns:
  assumes ranked: "\<forall>e \<in> set edges. rank (target e) < rank (source e)"
  shows "rank v < depth \<Longrightarrow> \<exists>ds'. collect depth edges v ds = Some ds'"
proof (induction depth arbitrary: v ds)
  case 0
  then show ?case by simp
next
  case (Suc depth)
  have "\<exists>s'. collect depth edges (target e) (setAdd (target e) s) = Some s'"
    if "e \<in> set (filter (\<lambda>e. source e = v) edges)" for e s
  proof -
    from that ranked have "rank (target e) < rank v" by auto
    with Suc.prems have "rank (target e) < depth" by simp
    then show ?thesis by (rule Suc.IH)
  qed
  then show ?case
    using forEachM_returns [of "filter (\<lambda>e. source e = v) edges"
        "\<lambda>edge ds. collect depth edges (target edge) (setAdd (target edge) ds)" ds]
    by simp
qed

lemma collapse_returns:
  assumes "ws_expandedState state n = Some True"
    and "\<forall>e \<in> set (ws_edges state). rank (target e) < rank (source e)"
    and "rank n < depth"
  shows "\<exists>state'. handleNodeClick depth repository layoutDirection n state = Some state'
    \<and> ws_expandedState state' = (ws_expandedState state)(n \<mapsto> False)"
proof -
  from collect_returns [OF assms(2,3)] obtain ds
    where "getNodeDescendants depth n (ws_nodes state) (ws_edges state) = Some ds"
    unfolding getNodeDescendants_def by blast
  with assms(1) show ?thesis by (simp add: handleNodeClick_def)
qed

text \<open>
  A state the widget reaches: the repository holds the records A and B, each linked to the
  other; the widget starts with the node of A, and the nodes of A and of B are clicked one
  after the other. Both expansions return, whatever the number of stack frames. Then both
  nodes are visible, each has an edge to the other, and both flags are set.
\<close>

definition exMutualRecords :: "RecordNode list" where
  "exMutualRecords =
     [mkRecord ''A'' ''Alpha'' [\<lparr> rl_recordKey = ''B'', rl_linkType = ''depends_on'' \<rparr>] [],
      mkRecord ''B'' ''Beta'' [\<lparr> rl_recordKey = ''A'', rl_linkType = ''depends_on'' \<rparr>] []]"

definition exMutualRepository :: DataRepository where
  "exMutualRepository = snd (createDataRepository (\<lambda>r. exDesign) exMutualRecords [])"

definition exMutualStart :: WidgetState where
  "exMutualStart =
     (case getOrCreateRecordNode createNodeIndex (hd exMutualRecords) originPosition of
        (index, node) \<Rightarrow>
          \<lparr> ws_nodes = [node], ws_edges = [], ws_expandedState = Map.empty,
            ws_nodeIndex = index \<rparr>)"

definition clicks ::
  "nat \<Rightarrow> DataRepository \<Rightarrow> Direction option \<Rightarrow> string list \<Rightarrow> WidgetState \<Rightarrow> WidgetState option" where
  "clicks depth repository layoutDirection ids state =
     fold (\<lambda>ident s. case s of None \<Rightarrow> None
                      | Some s' \<Rightarrow> handleNodeClick depth repository layoutDirection ident s')
       ids (Some state)"

lemma exMutual_expanded:
  "map_option (\<lambda>s. (map node_id (ws_nodes s),
                    map (\<lambda>e. (source e, target e, edge_linkType e)) (ws_edges s),
                    ws_expandedState s ''record-A'', ws_expandedState s ''record-B''))
     (clicks 0 exMutualRepository (Some DirTB) [''record-A'', ''record-B''] exMutualStart)
   = Some ([''record-B'', ''record-A''],
           [(''record-A'', ''record-B'', Some ''depends_on''),
            (''record-B'', ''record-A'', Some ''depends_on'')],
           Some True, Some True)"
  by code_simp

text \<open>An expansion does not depend on the number of stack frames, and sets the flag.\<close>

lemma handleNodeClick_expand:
  assumes "ws_expandedState state n \<noteq> Some True"
  shows "\<exists>state'.
      (\<forall>depth. handleNodeClick depth repository layoutDirection n state = Some state')
    \<and> ws_expandedState state' = (ws_expandedState state)(n \<mapsto> True)"
proof -
  obtain index ns es where
    e: "expandNode (ws_nodeIndex state) layoutDirection n (ws_nodes state) (ws_edges state)
          repository = (index, ns, es)"
    by (cases "expandNode (ws_nodeIndex state) layoutDirection n (ws_nodes state)
          (ws_edges state) repository")
  let ?s = "\<lparr> ws_nodes = ns, ws_edges = es,
             ws_expandedState = (ws_expandedState state)(n \<mapsto> True), ws_nodeIndex = index \<rparr>"
  have c: "(case ws_expandedState state n of None \<Rightarrow> False | Some b \<Rightarrow> b) = False"
    using assms by (cases "ws_expandedState state n") auto
  have "handleNodeClick depth repository layoutDirection n state = Some ?s" for depth
    by (simp only: handleNodeClick_def c if_False e prod.case)
  moreover have "ws_expandedState ?s = (ws_expandedState state)(n \<mapsto> True)" by simp
  ultimately show ?thesis by blast
qed

lemma exMutual_clicks:
  "clicks depth exMutualRepository (Some DirTB) [''record-A'', ''record-B''] exMutualStart
     = clicks 0 exMutualRepository (Some DirTB) [''record-A'', ''record-B''] exMutualStart"
proof -
  have empty: "ws_expandedState exMutualStart = Map.empty"
    by (simp add: exMutualStart_def split: prod.splits)
  then have "ws_expandedState exMutualStart ''record-A'' \<noteq> Some True" by simp
  from handleNodeClick_expand [OF this, of exMutualRepository "Some DirTB"] obtain s1 where
    a: "\<forall>depth. handleNodeClick depth exMutualRepository (Some DirTB) ''record-A'' exMutualStart
          = Some s1"
    and f: "ws_expandedState s1 = (ws_expandedState exMutualStart)(''record-A'' \<mapsto> True)"
    by blast
  from f empty have "ws_expandedState s1 ''record-B'' \<noteq> Some True" by simp
  from handleNodeClick_expand [OF this, of exMutualRepository "Some DirTB"] obtain s2 where
    b: "\<forall>depth. handleNodeClick depth exMutualRepository (Some DirTB) ''record-B'' s1 = Some s2"
    by blast
  have "clicks depth exMutualRepository (Some DirTB) [''record-A'', ''record-B''] exMutualStart
      = Some s2" for depth
    using a b by (simp add: clicks_def)
  then show ?thesis by simp
qed

text \<open>
  C10. In that state the collapse of the expanded node of A never returns, whatever the
  number of stack frames: the descendant closure exhausts them before any state is set,
  so that the flag of A is not set to false. It is the defect of C2, met from the handler
  of the click.
\<close>

theorem collapse_cycle_keeps_flag:
  "\<exists>state.
     (\<forall>depth. clicks depth exMutualRepository (Some DirTB) [''record-A'', ''record-B'']
                exMutualStart = Some state)
     \<and> ws_expandedState state ''record-A'' = Some True
     \<and> (\<forall>depth. handleNodeClick depth exMutualRepository (Some DirTB) ''record-A'' state = None)"
proof -
  from exMutual_expanded obtain state
    where s: "clicks 0 exMutualRepository (Some DirTB) [''record-A'', ''record-B''] exMutualStart
        = Some state"
      and e: "map (\<lambda>e. (source e, target e, edge_linkType e)) (ws_edges state)
        = [(''record-A'', ''record-B'', Some ''depends_on''),
           (''record-B'', ''record-A'', Some ''depends_on'')]"
      and f: "ws_expandedState state ''record-A'' = Some True"
    by auto
  have "clicks depth exMutualRepository (Some DirTB) [''record-A'', ''record-B'']
      exMutualStart = Some state" for depth
    using exMutual_clicks [of depth] s by (rule trans)
  then have s': "\<forall>depth. clicks depth exMutualRepository (Some DirTB)
      [''record-A'', ''record-B''] exMutualStart = Some state" ..
  from e obtain e1 e2 where l: "ws_edges state = [e1, e2]"
    and e1: "source e1 = ''record-A''" "target e1 = ''record-B''"
    and e2: "source e2 = ''record-B''" "target e2 = ''record-A''"
    by (auto simp: map_eq_Cons_conv)
  have "collect depth (ws_edges state) ''record-A'' [] = None" for depth
    unfolding l using collect_cycle [OF e1 e2, of depth "[]"] by simp
  then have "\<forall>depth. handleNodeClick depth exMutualRepository (Some DirTB) ''record-A'' state = None"
    by (simp add: handleNodeClick_def getNodeDescendants_def f)
  with s' f show ?thesis by blast
qed

section \<open>Laying out again\<close>

text \<open>
  The layout of a list of nodes from a root that is given keeps every node, changing only
  its position; the node found for an id is the same node before and after, its position
  apart; and laying out the result again, with the same edges and root, returns it as it is.
\<close>

text \<open>A node with its position forgotten, and the members of a level group.\<close>

definition unplaced :: "FlowNode \<Rightarrow> FlowNode" where
  "unplaced n = n\<lparr>position := originPosition\<rparr>"

definition nodesAt :: "(nat \<times> FlowNode list) list \<Rightarrow> nat \<Rightarrow> FlowNode list" where
  "nodesAt levelGroups level =
     (case map_of levelGroups level of None \<Rightarrow> [] | Some members \<Rightarrow> members)"

lemma unplaced_fields [simp]:
  "node_id (unplaced n) = node_id n" "node_type (unplaced n) = node_type n"
  "node_data (unplaced n) = node_data n"
  by (simp_all add: unplaced_def)

lemma unplaced_place [simp]: "unplaced (n\<lparr>position := p\<rparr>) = unplaced n"
  by (simp add: unplaced_def)

lemma place_unplaced: "unplaced m = unplaced n \<Longrightarrow> m\<lparr>position := p\<rparr> = n\<lparr>position := p\<rparr>"
proof -
  assume "unplaced m = unplaced n"
  then have "(unplaced m)\<lparr>position := p\<rparr> = (unplaced n)\<lparr>position := p\<rparr>" by simp
  then show ?thesis by (simp add: unplaced_def)
qed

lemma placeGroup_unplaced [simp]:
  "map unplaced (placeGroup place current step ns) = map unplaced ns"
  by (induction ns arbitrary: current) simp_all

lemma placeGroup_cong:
  "map unplaced ms = map unplaced ns \<Longrightarrow>
   placeGroup place current step ms = placeGroup place current step ns"
proof (induction ms arbitrary: ns current)
  case Nil
  then show ?case by simp
next
  case (Cons m ms)
  then obtain n ns' where ns: "ns = n # ns'" by (cases ns) auto
  with Cons.prems have u: "unplaced m = unplaced n" and r: "map unplaced ms = map unplaced ns'"
    by auto
  have "m\<lparr>position := place current\<rparr> = n\<lparr>position := place current\<rparr>"
    using u by (rule place_unplaced)
  then show ?case using Cons.IH [OF r] by (simp add: ns)
qed

lemma nodesAt_addToGroup:
  "nodesAt (addToGroup levels node levelGroups) l
   = (if l = levelOf levels (node_id node) then nodesAt levelGroups l @ [node]
      else nodesAt levelGroups l)"
  by (simp add: addToGroup_def nodesAt_def mapHas_def mapSet_def update_conv' Let_def
      split: option.splits)

lemma dom_addToGroup:
  "dom (map_of (addToGroup levels node levelGroups))
   = insert (levelOf levels (node_id node)) (dom (map_of levelGroups))"
  by (cases "map_of levelGroups (levelOf levels (node_id node))")
     (simp_all add: addToGroup_def mapHas_def mapSet_def update_conv' Let_def)

lemma keys_addToGroup:
  "fst ` set (addToGroup levels node levelGroups)
   = insert (levelOf levels (node_id node)) (fst ` set levelGroups)"
  using dom_addToGroup [of levels node levelGroups] by (simp only: dom_map_of_conv_image_fst)

lemma distinct_addToGroup:
  "distinct (map fst levelGroups) \<Longrightarrow> distinct (map fst (addToGroup levels node levelGroups))"
  by (cases "map_of levelGroups (levelOf levels (node_id node))")
     (simp_all add: addToGroup_def mapHas_def mapSet_def update_conv' Let_def distinct_update)

lemma nodesAt_fold:
  "nodesAt (fold (addToGroup levels) ns G) l
   = nodesAt G l @ filter (\<lambda>n. levelOf levels (node_id n) = l) ns"
  by (induction ns arbitrary: G) (simp_all add: nodesAt_addToGroup)

lemma keys_fold:
  "fst ` set (fold (addToGroup levels) ns G)
   = fst ` set G \<union> (\<lambda>n. levelOf levels (node_id n)) ` set ns"
  by (induction ns arbitrary: G) (simp_all add: keys_addToGroup)

lemma distinct_fold:
  "distinct (map fst G) \<Longrightarrow> distinct (map fst (fold (addToGroup levels) ns G))"
  by (induction ns arbitrary: G) (simp_all add: distinct_addToGroup)

lemma nodesAt_groupByLevel:
  "nodesAt (groupByLevel ns levels) l = filter (\<lambda>n. levelOf levels (node_id n) = l) ns"
  by (simp add: groupByLevel_def nodesAt_fold) (simp add: nodesAt_def)

lemma keys_groupByLevel:
  "set (map fst (groupByLevel ns levels)) = (\<lambda>n. levelOf levels (node_id n)) ` set ns"
  by (simp add: groupByLevel_def keys_fold)

lemma distinct_groupByLevel: "distinct (map fst (groupByLevel ns levels))"
  by (simp add: groupByLevel_def distinct_fold)

lemma placeLevels_nodesAt:
  "placeLevels engine horizontal levelGroups current (level # rest) =
     (if horizontal
      then placeGroup (\<lambda>currentY. \<lparr> pos_x = current, pos_y = currentY \<rparr>)
             (- (of_nat (length (nodesAt levelGroups level))
                 * (nodeHeight engine + nodeGap engine)) / 2)
             (nodeHeight engine + nodeGap engine) (nodesAt levelGroups level)
           @ placeLevels engine horizontal levelGroups
               (current + (nodeWidth engine + levelGap engine)) rest
      else placeGroup (\<lambda>currentX. \<lparr> pos_x = currentX, pos_y = current \<rparr>)
             (- (of_nat (length (nodesAt levelGroups level))
                 * (nodeWidth engine + nodeGap engine)) / 2)
             (nodeWidth engine + nodeGap engine) (nodesAt levelGroups level)
           @ placeLevels engine horizontal levelGroups
               (current + (nodeHeight engine + levelGap engine)) rest)"
  by (simp add: nodesAt_def Let_def)

lemma placeLevels_cong:
  "(\<And>l. l \<in> set ks \<Longrightarrow> map unplaced (nodesAt G l) = map unplaced (nodesAt G' l)) \<Longrightarrow>
   placeLevels engine horizontal G current ks = placeLevels engine horizontal G' current ks"
proof (induction ks arbitrary: current)
  case Nil
  show ?case by simp
next
  case (Cons k ks)
  have u: "map unplaced (nodesAt G k) = map unplaced (nodesAt G' k)" using Cons.prems by simp
  then have len: "length (nodesAt G k) = length (nodesAt G' k)" by (rule map_eq_imp_length_eq)
  have g: "placeGroup place c st (nodesAt G k) = placeGroup place c st (nodesAt G' k)"
    for place c st
    using u by (rule placeGroup_cong)
  have r: "placeLevels engine horizontal G c ks = placeLevels engine horizontal G' c ks" for c
    using Cons.prems by (intro Cons.IH) simp
  show ?case by (simp only: placeLevels_nodesAt len g r)
qed

lemma placeLevels_unplaced:
  "map unplaced (placeLevels engine horizontal G current ks)
   = concat (map (\<lambda>l. map unplaced (nodesAt G l)) ks)"
proof (induction ks arbitrary: current)
  case Nil
  show ?case by simp
next
  case (Cons k ks)
  show ?case using Cons.IH by (cases horizontal) (simp_all add: nodesAt_def Let_def)
qed

text \<open>The two comparators of \<open>positionNodes\<close> sort the levels up, or down.\<close>

lemma sortBy_ascending: "sortBy (\<lambda>a b. int a - int b) ks = sort ks"
proof -
  have "sorted_wrt (\<lambda>a b. int a - int b < 0 \<or> (int a - int b = 0 \<and> True))
      (sortBy (\<lambda>a b. int a - int b) ks)"
    by (rule sorted_sortBy) (simp_all add: sorted_wrt_true)
  then have "sorted (sortBy (\<lambda>a b. int a - int b) ks)"
    by (rule sorted_wrt_mono_rel [rotated]) auto
  then have "sort ks = sortBy (\<lambda>a b. int a - int b) ks"
    by (intro properties_for_sort) simp_all
  then show ?thesis by simp
qed

lemma sortBy_descending: "sortBy (\<lambda>a b. int b - int a) ks = rev (sort ks)"
proof -
  have "sorted_wrt (\<lambda>a b. int b - int a < 0 \<or> (int b - int a = 0 \<and> True))
      (sortBy (\<lambda>a b. int b - int a) ks)"
    by (rule sorted_sortBy) (simp_all add: sorted_wrt_true)
  then have "sorted_wrt (\<lambda>a b. b \<le> a) (sortBy (\<lambda>a b. int b - int a) ks)"
    by (rule sorted_wrt_mono_rel [rotated]) auto
  then have "sorted (rev (sortBy (\<lambda>a b. int b - int a) ks))"
    by (simp add: sorted_wrt_rev)
  then have "sort ks = rev (sortBy (\<lambda>a b. int b - int a) ks)"
    by (intro properties_for_sort) simp_all
  then show ?thesis by simp
qed

definition sortLevels :: "bool \<Rightarrow> nat list \<Rightarrow> nat list" where
  "sortLevels descending ks =
     sortBy (\<lambda>a b. if descending then int b - int a else int a - int b) ks"

lemma sortLevels_sort: "sortLevels descending ks = (if descending then rev (sort ks) else sort ks)"
  by (simp add: sortLevels_def sortBy_ascending sortBy_descending)

lemma sortLevels_set [simp]: "set (sortLevels descending ks) = set ks"
  by (simp add: sortLevels_def)

lemma sortLevels_distinct: "distinct ks \<Longrightarrow> distinct (sortLevels descending ks)"
  by (simp add: sortLevels_sort)

lemma sortLevels_cong:
  assumes "distinct ks" "distinct ks'" "set ks = set ks'"
  shows "sortLevels descending ks = sortLevels descending ks'"
proof -
  from assms have "mset ks = mset ks'" by (simp add: set_eq_iff_mset_eq_distinct)
  then have "sort ks = sort ks'" by (intro properties_for_sort) simp_all
  then show ?thesis by (simp add: sortLevels_sort)
qed

lemma positionNodes_placeLevels:
  "positionNodes engine nodes levels direction =
     placeLevels engine (direction = DirLR \<or> direction = DirRL) (groupByLevel nodes levels)
       (if direction = DirRL \<or> direction = DirBT then - 1000 else 0)
       (sortLevels (direction = DirRL \<or> direction = DirBT) (map fst (groupByLevel nodes levels)))"
  by (cases direction) (simp_all add: positionNodes_def sortLevels_def Let_def)

lemma concat_single:
  "distinct ks \<Longrightarrow> l \<in> set ks \<Longrightarrow> concat (map (\<lambda>k. if k = l then xs else []) ks) = xs"
  by (induction ks) auto

lemma filter_level_segments:
  assumes "distinct ks" "l \<in> set ks"
  shows "filter (\<lambda>n. lev (node_id n) = l)
           (concat (map (\<lambda>k. map unplaced (filter (\<lambda>n. lev (node_id n) = k) ns)) ks))
         = map unplaced (filter (\<lambda>n. lev (node_id n) = l) ns)"
proof -
  have "filter (\<lambda>n. lev (node_id n) = l) (map unplaced (filter (\<lambda>n. lev (node_id n) = k) ns))
      = (if k = l then map unplaced (filter (\<lambda>n. lev (node_id n) = l) ns) else [])" for k
    by (auto simp: filter_map comp_def filter_empty_conv)
  then have "filter (\<lambda>n. lev (node_id n) = l)
           (concat (map (\<lambda>k. map unplaced (filter (\<lambda>n. lev (node_id n) = k) ns)) ks))
      = concat (map (\<lambda>k. if k = l then map unplaced (filter (\<lambda>n. lev (node_id n) = l) ns) else []) ks)"
    by (simp add: filter_concat comp_def)
  then show ?thesis using assms by (simp only: concat_single)
qed

lemma positionNodes_unplaced:
  "map unplaced (positionNodes engine ns levels direction)
   = concat (map (\<lambda>l. map unplaced (filter (\<lambda>n. levelOf levels (node_id n) = l) ns))
       (sortLevels (direction = DirRL \<or> direction = DirBT) (map fst (groupByLevel ns levels))))"
  by (simp only: positionNodes_placeLevels placeLevels_unplaced nodesAt_groupByLevel)

lemma unplaced_set_positionNodes:
  "unplaced ` set (positionNodes engine ns levels direction) = unplaced ` set ns"
proof -
  have "unplaced ` set (positionNodes engine ns levels direction)
      = set (map unplaced (positionNodes engine ns levels direction))" by simp
  also have "\<dots> = (\<Union>l \<in> (\<lambda>n. levelOf levels (node_id n)) ` set ns.
      unplaced ` {n \<in> set ns. levelOf levels (node_id n) = l})"
    by (simp only: positionNodes_unplaced set_concat set_map sortLevels_set keys_groupByLevel
        [unfolded set_map] image_image set_filter) 
  also have "\<dots> = unplaced ` set ns" by auto
  finally show ?thesis .
qed

lemma positionNodes_idempotent:
  assumes same: "\<And>k. levelOf levels' k = levelOf levels k"
  shows "positionNodes engine (positionNodes engine ns levels direction) levels' direction
         = positionNodes engine ns levels direction"
proof -
  let ?P = "positionNodes engine ns levels direction"
  let ?desc = "direction = DirRL \<or> direction = DirBT"
  let ?G = "groupByLevel ns levels" and ?G' = "groupByLevel ?P levels'"
  let ?ks = "sortLevels ?desc (map fst ?G)"
  have "(\<lambda>n. levelOf levels (node_id n)) ` set ?P
      = (\<lambda>n. levelOf levels (node_id n)) ` unplaced ` set ?P" by (simp add: image_image)
  also have "\<dots> = (\<lambda>n. levelOf levels (node_id n)) ` set ns"
    by (simp only: unplaced_set_positionNodes) (simp add: image_image)
  finally have "set (map fst ?G') = set (map fst ?G)"
    by (simp only: keys_groupByLevel same)
  then have ks: "sortLevels ?desc (map fst ?G') = ?ks"
    by (intro sortLevels_cong distinct_groupByLevel)
  have dk: "distinct ?ks" by (intro sortLevels_distinct distinct_groupByLevel)
  have seg: "map unplaced (nodesAt ?G' l) = map unplaced (nodesAt ?G l)" if "l \<in> set ?ks" for l
  proof -
    have "map unplaced (nodesAt ?G' l)
        = filter (\<lambda>n. levelOf levels (node_id n) = l) (map unplaced ?P)"
      by (simp add: nodesAt_groupByLevel same filter_map comp_def)
    also have "\<dots> = map unplaced (filter (\<lambda>n. levelOf levels (node_id n) = l) ns)"
      by (simp only: positionNodes_unplaced) (rule filter_level_segments [OF dk that])
    finally show ?thesis by (simp add: nodesAt_groupByLevel)
  qed
  have "positionNodes engine ?P levels' direction
      = placeLevels engine (direction = DirLR \<or> direction = DirRL) ?G'
          (if ?desc then - 1000 else 0) ?ks"
    by (simp only: positionNodes_placeLevels [of engine ?P] ks)
  also have "\<dots> = placeLevels engine (direction = DirLR \<or> direction = DirRL) ?G
          (if ?desc then - 1000 else 0) ?ks"
    using seg by (rule placeLevels_cong)
  also have "\<dots> = ?P" by (simp only: positionNodes_placeLevels)
  finally show ?thesis .
qed

lemma levelOf_calculateLevels:
  assumes "r \<noteq> []"
  shows "levelOf (calculateLevels ns edges (Some r)) k
       = levelOf (snd (dfs (buildAdjacencyList [] edges) [(r, 0)] ({}, Map.empty))) k"
proof -
  have "dfs (buildAdjacencyList ns edges) [(r, 0)] ({}, Map.empty)
      = dfs (buildAdjacencyList [] edges) [(r, 0)] ({}, Map.empty)"
    by (rule dfs_cong) (simp add: neighborsOf_buildAdjacencyList)
  moreover have "orElse (Some r) (firstNodeId ns) = Some r"
    using assms by (simp add: orElse_def)
  ultimately show ?thesis
    using assms by (simp add: calculateLevels_unfold levelOf_def split: option.splits)
qed

lemma levelOf_calculateLevels_nodes:
  "r \<noteq> [] \<Longrightarrow> levelOf (calculateLevels ns edges (Some r)) k
                = levelOf (calculateLevels ns' edges (Some r)) k"
  by (simp add: levelOf_calculateLevels)

lemma layout_positionNodes:
  assumes "r \<noteq> []"
  shows "calculateHierarchicalLayout ns edges (Some r) (Some d)
     = (if ns = [] then []
        else positionNodes (newLayoutEngine None None (Some 320) (Some 220)) ns
               (calculateLevels ns edges (Some r)) d)"
  using assms
  by (simp add: calculateHierarchicalLayout_def calculateLayout_def orElse_def Let_def)

lemma layout_unplaced_set:
  assumes "r \<noteq> []"
  shows "unplaced ` set (calculateHierarchicalLayout ns edges (Some r) (Some d)) = unplaced ` set ns"
  using assms by (simp add: layout_positionNodes unplaced_set_positionNodes)

lemma layout_ids:
  assumes "r \<noteq> []"
  shows "node_id ` set (calculateHierarchicalLayout ns edges (Some r) (Some d)) = node_id ` set ns"
proof -
  have "node_id ` set xs = node_id ` unplaced ` set xs" for xs by (simp add: image_image)
  then show ?thesis using layout_unplaced_set [OF assms] by metis
qed

lemma layout_idempotent:
  assumes "r \<noteq> []"
  shows "calculateHierarchicalLayout (calculateHierarchicalLayout ns edges (Some r) (Some d))
           edges (Some r) (Some d)
       = calculateHierarchicalLayout ns edges (Some r) (Some d)"
proof (cases "ns = []")
  case True
  then show ?thesis using assms by (simp add: layout_positionNodes)
next
  case False
  let ?e = "newLayoutEngine None None (Some 320) (Some 220)"
  let ?P = "positionNodes ?e ns (calculateLevels ns edges (Some r)) d"
  have "unplaced ` set ?P \<noteq> {}" using False by (simp add: unplaced_set_positionNodes)
  then have ne: "?P \<noteq> []" by auto
  have "positionNodes ?e ?P (calculateLevels ?P edges (Some r)) d = ?P"
    by (rule positionNodes_idempotent) (rule levelOf_calculateLevels_nodes [OF assms])
  then show ?thesis using False ne assms by (simp add: layout_positionNodes)
qed

lemma find_map_unplaced:
  "map_option unplaced (find (\<lambda>n. node_id n = k) xs) = find (\<lambda>n. node_id n = k) (map unplaced xs)"
  by (induction xs) simp_all

lemma find_segments:
  assumes "\<And>n. node_id n = k \<Longrightarrow> lev n = l0"
  shows "find (\<lambda>n. node_id n = k)
           (concat (map (\<lambda>l. map unplaced (filter (\<lambda>n. lev n = l) xs)) ks))
       = (if l0 \<in> set ks then map_option unplaced (find (\<lambda>n. node_id n = k) xs) else None)"
proof (induction ks)
  case Nil
  show ?case by simp
next
  case (Cons l ks)
  show ?case
  proof (cases "l = l0")
    case True
    have "find (\<lambda>n. node_id n = k) (filter (\<lambda>n. lev n = l0) xs) = find (\<lambda>n. node_id n = k) xs"
      using assms by (induction xs) auto
    then have seg: "find (\<lambda>n. node_id n = k) (map unplaced (filter (\<lambda>n. lev n = l0) xs))
        = map_option unplaced (find (\<lambda>n. node_id n = k) xs)"
      by (simp only: find_map_unplaced [symmetric])
    show ?thesis
    proof (cases "find (\<lambda>n. node_id n = k) xs")
      case None
      with seg Cons.IH True show ?thesis by (simp add: find_app)
    next
      case (Some x)
      with seg True show ?thesis by (simp add: find_app)
    qed
  next
    case False
    have "find (\<lambda>n. node_id n = k) (map unplaced (filter (\<lambda>n. lev n = l) xs)) = None"
      using assms False by (auto simp: find_None_iff)
    with Cons.IH False show ?thesis by (auto simp: find_app)
  qed
qed


lemma layout_find:
  assumes "r \<noteq> []"
  shows "map_option unplaced
           (find (\<lambda>n. node_id n = k) (calculateHierarchicalLayout ns edges (Some r) (Some d)))
       = map_option unplaced (find (\<lambda>n. node_id n = k) ns)"
proof (cases "ns = []")
  case True
  then show ?thesis using assms by (simp add: layout_positionNodes)
next
  case False
  let ?e = "newLayoutEngine None None (Some 320) (Some 220)"
  let ?L = "calculateLevels ns edges (Some r)"
  let ?ks = "sortLevels (d = DirRL \<or> d = DirBT) (map fst (groupByLevel ns ?L))"
  have "find (\<lambda>n. node_id n = k) (map unplaced (positionNodes ?e ns ?L d))
      = (if levelOf ?L k \<in> set ?ks then map_option unplaced (find (\<lambda>n. node_id n = k) ns)
         else None)"
    by (simp only: positionNodes_unplaced)
       (rule find_segments [where lev = "\<lambda>n. levelOf ?L (node_id n)"], simp)
  moreover have "find (\<lambda>n. node_id n = k) ns = None" if "levelOf ?L k \<notin> set ?ks"
  proof -
    from that have "levelOf ?L k \<notin> (\<lambda>n. levelOf ?L (node_id n)) ` set ns"
      by (simp add: keys_groupByLevel [unfolded set_map])
    then show ?thesis by (auto simp: find_None_iff)
  qed
  ultimately have "find (\<lambda>n. node_id n = k) (map unplaced (positionNodes ?e ns ?L d))
      = map_option unplaced (find (\<lambda>n. node_id n = k) ns)"
    by auto
  then show ?thesis using False assms
    by (simp add: layout_positionNodes find_map_unplaced)
qed

section \<open>The iterations of an expansion\<close>

text \<open>
  What a loop of the expansion can only add to: the three key maps of the index, the node
  list and the edge triples. \<open>settled\<close> says that a child is in the index under its key,
  among the nodes by its id, and linked from the source by an edge of the link type.
\<close>

definition hasEdge :: "FlowEdge list \<Rightarrow> string \<Rightarrow> string \<Rightarrow> LinkType \<Rightarrow> bool" where
  "hasEdge edges s t l = (\<not> isEdgeUnique edges s t l)"

type_synonym ExpandCore = "NodeIndex \<times> FlowNode list \<times> FlowEdge list"

definition core :: "ExpandVars \<Rightarrow> ExpandCore" where
  "core = (\<lambda>(index, newNodes, newEdges, yOffset). (index, newNodes, newEdges))"

definition grows :: "ExpandCore \<Rightarrow> ExpandCore \<Rightarrow> bool" where
  "grows = (\<lambda>(i, ns, es) (i', ns', es').
      recordsByKey i \<subseteq>\<^sub>m recordsByKey i'
    \<and> documentsByKey i \<subseteq>\<^sub>m documentsByKey i'
    \<and> versionsById i \<subseteq>\<^sub>m versionsById i'
    \<and> prefix ns ns'
    \<and> (\<forall>s t l. hasEdge es s t l \<longrightarrow> hasEdge es' s t l))"

definition settled ::
  "(NodeIndex \<Rightarrow> string \<rightharpoonup> FlowNode) \<Rightarrow> string \<Rightarrow> string \<Rightarrow> LinkType \<Rightarrow> ExpandCore \<Rightarrow> bool" where
  "settled keyMap key nodeId linkType = (\<lambda>(i, ns, es).
      \<exists>c. keyMap i key = Some c \<and> node_id c \<in> node_id ` set ns
          \<and> hasEdge es nodeId (node_id c) linkType)"

lemma core_simp [simp]: "core (i, ns, es, y) = (i, ns, es)"
  by (simp add: core_def)

lemma grows_refl [simp]: "grows T T"
  by (cases T) (simp add: grows_def)

lemma grows_trans: "grows T T' \<Longrightarrow> grows T' T'' \<Longrightarrow> grows T T''"
  by (cases T, cases T', cases T'') (auto simp: grows_def intro: map_le_trans)

lemma growsI:
  assumes "recordsByKey i \<subseteq>\<^sub>m recordsByKey i'" "documentsByKey i \<subseteq>\<^sub>m documentsByKey i'"
    "versionsById i \<subseteq>\<^sub>m versionsById i'" "prefix ns ns'"
    "\<And>s t l. hasEdge es s t l \<Longrightarrow> hasEdge es' s t l"
  shows "grows (i, ns, es) (i', ns', es')"
  using assms by (simp add: grows_def)

lemma settled_grows:
  assumes mono: "\<And>i i'. recordsByKey i \<subseteq>\<^sub>m recordsByKey i' \<Longrightarrow>
      documentsByKey i \<subseteq>\<^sub>m documentsByKey i' \<Longrightarrow> versionsById i \<subseteq>\<^sub>m versionsById i' \<Longrightarrow>
      keyMap i \<subseteq>\<^sub>m keyMap i'"
    and g: "grows T T'" and s: "settled keyMap key nodeId linkType T"
  shows "settled keyMap key nodeId linkType T'"
proof -
  obtain i ns es where T: "T = (i, ns, es)" by (cases T)
  obtain i' ns' es' where T': "T' = (i', ns', es')" by (cases T')
  from s T obtain c where c: "keyMap i key = Some c" "node_id c \<in> node_id ` set ns"
    "hasEdge es nodeId (node_id c) linkType" by (auto simp: settled_def)
  from g T T' have le: "keyMap i \<subseteq>\<^sub>m keyMap i'" and pre: "prefix ns ns'"
    and ed: "\<And>s t l. hasEdge es s t l \<Longrightarrow> hasEdge es' s t l"
    using mono by (auto simp: grows_def)
  from le c(1) have "keyMap i' key = Some c" by (auto simp: map_le_def dom_def)
  moreover from pre c(2) have "node_id c \<in> node_id ` set ns'" by (auto simp: prefix_def)
  moreover from ed c(3) have "hasEdge es' nodeId (node_id c) linkType" .
  ultimately show ?thesis by (auto simp: settled_def T')
qed

lemma settled_ids:
  "settled keyMap key nodeId linkType (i, ns, es) \<Longrightarrow> node_id ` set ns = node_id ` set ns' \<Longrightarrow>
   settled keyMap key nodeId linkType (i, ns', es)"
  by (auto simp: settled_def)

lemma find_id_None: "find (\<lambda>n. node_id n = k) ns = None \<longleftrightarrow> k \<notin> node_id ` set ns"
  by (auto simp: find_None_iff)

lemma pushNode_prefix: "prefix ns (pushNode c ns)"
  by (simp add: pushNode_def)

lemma pushNode_has: "node_id c \<in> node_id ` set (pushNode c ns)"
  by (auto simp: pushNode_def find_id_None)

lemma pushNode_present: "node_id c \<in> node_id ` set ns \<Longrightarrow> pushNode c ns = ns"
  by (simp add: pushNode_def find_id_None)

lemma hasEdge_append: "hasEdge es s t l \<Longrightarrow> hasEdge (es @ es') s t l"
  by (auto simp: hasEdge_def isEdgeUnique_def list_ex_iff)

lemma pushEdge_keeps: "hasEdge es s t l \<Longrightarrow> hasEdge (pushEdge n c lt es) s t l"
  by (simp add: pushEdge_def hasEdge_append)

lemma pushEdge_has: "hasEdge (pushEdge n c lt es) n c lt"
  by (auto simp: pushEdge_def hasEdge_def isEdgeUnique_def createEdge_def list_ex_iff)

lemma pushEdge_present: "hasEdge es n c lt \<Longrightarrow> pushEdge n c lt es = es"
  by (simp add: pushEdge_def hasEdge_def)

lemma getOrCreateRecordNode_result:
  assumes "getOrCreateRecordNode i r pos = (i', c)"
  shows "recordsByKey i' (recordKey r) = Some c" "recordsByKey i \<subseteq>\<^sub>m recordsByKey i'"
    "documentsByKey i' = documentsByKey i" "versionsById i' = versionsById i"
  using assms
  by (auto simp: getOrCreateRecordNode_def indexRecordNode_def Let_def map_le_def
      split: option.splits)

lemma getOrCreateRecordNode_hit:
  "recordsByKey i (recordKey r) = Some c \<Longrightarrow> getOrCreateRecordNode i r pos = (i, c)"
  by (simp add: getOrCreateRecordNode_def)

lemma getOrCreateDocumentNode_result:
  assumes "getOrCreateDocumentNode i d pos = (i', c)"
  shows "documentsByKey i' (documentKey d) = Some c" "documentsByKey i \<subseteq>\<^sub>m documentsByKey i'"
    "recordsByKey i' = recordsByKey i" "versionsById i' = versionsById i"
  using assms
  by (auto simp: getOrCreateDocumentNode_def indexDocumentNode_def Let_def map_le_def
      split: option.splits)

lemma getOrCreateDocumentNode_hit:
  "documentsByKey i (documentKey d) = Some c \<Longrightarrow> getOrCreateDocumentNode i d pos = (i, c)"
  by (simp add: getOrCreateDocumentNode_def)

lemma getOrCreateDocumentVersionNode_result:
  assumes "getOrCreateDocumentVersionNode i k v pos = (i', c)"
  shows "versionsById i' (versionId v) = Some c" "versionsById i \<subseteq>\<^sub>m versionsById i'"
    "recordsByKey i' = recordsByKey i" "documentsByKey i' = documentsByKey i"
  using assms
  by (auto simp: getOrCreateDocumentVersionNode_def indexDocumentVersionNode_def Let_def
      map_le_def split: option.splits)

lemma getOrCreateDocumentVersionNode_hit:
  "versionsById i (versionId v) = Some c \<Longrightarrow> getOrCreateDocumentVersionNode i k v pos = (i, c)"
  by (simp add: getOrCreateDocumentVersionNode_def)

text \<open>Loops in general.\<close>

lemma fold_grows:
  assumes "\<And>x V. grows (core V) (core (f x V))"
  shows "grows (core V) (core (fold f xs V))"
proof (induction xs arbitrary: V)
  case Nil
  show ?case by simp
next
  case (Cons x xs)
  have "grows (core V) (core (f x V))" by (rule assms)
  moreover have "grows (core (f x V)) (core (fold f xs (f x V)))" by (rule Cons.IH)
  ultimately show ?case by (simp add: grows_trans)
qed

lemma fold_settles:
  assumes g: "\<And>x V. grows (core V) (core (f x V))"
    and s: "\<And>x V. S x (core (f x V))"
    and m: "\<And>x T T'. grows T T' \<Longrightarrow> S x T \<Longrightarrow> S x T'"
  shows "x \<in> set xs \<Longrightarrow> S x (core (fold f xs V))"
proof (induction xs arbitrary: V)
  case Nil
  then show ?case by simp
next
  case (Cons y ys)
  show ?case
  proof (cases "x \<in> set ys")
    case True
    then show ?thesis using Cons.IH by simp
  next
    case False
    with Cons.prems have "x = y" by simp
    then have "S x (core (f y V))" by (simp add: s)
    moreover have "grows (core (f y V)) (core (fold f ys (f y V)))" using g by (rule fold_grows)
    ultimately show ?thesis using m by simp
  qed
qed

lemma fold_noop:
  assumes n: "\<And>x V. S x (core V) \<Longrightarrow> core (f x V) = core V"
  shows "(\<And>x. x \<in> set xs \<Longrightarrow> S x (core V)) \<Longrightarrow> core (fold f xs V) = core V"
proof (induction xs arbitrary: V)
  case Nil
  show ?case by simp
next
  case (Cons y ys)
  have 1: "core (f y V) = core V" using Cons.prems by (intro n) simp
  have "core (fold f ys (f y V)) = core (f y V)"
    using Cons.prems by (intro Cons.IH) (simp add: 1)
  with 1 show ?case by simp
qed

text \<open>The loop bodies.\<close>

lemma settled_records_grows:
  "grows T T' \<Longrightarrow> settled recordsByKey key nodeId lt T \<Longrightarrow> settled recordsByKey key nodeId lt T'"
  by (rule settled_grows [of recordsByKey])

lemma settled_documents_grows:
  "grows T T' \<Longrightarrow> settled documentsByKey key nodeId lt T \<Longrightarrow> settled documentsByKey key nodeId lt T'"
  by (rule settled_grows [of documentsByKey])

lemma push_grows:
  assumes "recordsByKey i \<subseteq>\<^sub>m recordsByKey i'" "documentsByKey i \<subseteq>\<^sub>m documentsByKey i'"
    "versionsById i \<subseteq>\<^sub>m versionsById i'"
  shows "grows (i, ns, es) (i', pushNode c ns, pushEdge n t l es)"
  using assms by (intro growsI) (simp_all add: pushNode_prefix pushEdge_keeps)

lemma push_settled:
  assumes "keyMap i' key = Some c"
  shows "settled keyMap key n l (i', pushNode c ns, pushEdge n (node_id c) l es)"
  using assms by (auto simp: settled_def pushNode_has pushEdge_has)

definition linkedRecordType :: "RecordNode \<Rightarrow> RecordNode \<Rightarrow> LinkType" where
  "linkedRecordType record linkedRecord =
     linkTypeOr (map_option rl_linkType
        (find (\<lambda>l. rl_recordKey l = recordKey linkedRecord) (r_linkedRecords record)))
       ''related_to''"

definition linkedDocumentType :: "RecordNode \<Rightarrow> Document \<Rightarrow> LinkType" where
  "linkedDocumentType record linkedDoc =
     linkTypeOr (map_option dl_linkType
        (find (\<lambda>l. dl_documentKey l = documentKey linkedDoc) (r_linkedDocuments record)))
       ''references''"

definition linkedRecordSettled :: "string \<Rightarrow> RecordNode \<Rightarrow> RecordNode \<Rightarrow> ExpandCore \<Rightarrow> bool" where
  "linkedRecordSettled nodeId record linkedRecord =
     settled recordsByKey (recordKey linkedRecord) nodeId (linkedRecordType record linkedRecord)"

definition linkedDocumentSettled :: "string \<Rightarrow> RecordNode \<Rightarrow> Document \<Rightarrow> ExpandCore \<Rightarrow> bool" where
  "linkedDocumentSettled nodeId record linkedDoc =
     settled documentsByKey (documentKey linkedDoc) nodeId (linkedDocumentType record linkedDoc)"

definition documentRecordSettled ::
  "string \<Rightarrow> DataRepository \<Rightarrow> RecordLink \<Rightarrow> ExpandCore \<Rightarrow> bool" where
  "documentRecordSettled nodeId repository linkRecord T =
     (case getRecord repository (rl_recordKey linkRecord) of
        None \<Rightarrow> True
      | Some linkedRecord \<Rightarrow>
          settled recordsByKey (recordKey linkedRecord) nodeId
            (linkTypeOr (Some (rl_linkType linkRecord)) ''references'') T)"

definition documentDocumentSettled ::
  "string \<Rightarrow> DataRepository \<Rightarrow> LinkType \<Rightarrow> DocumentLink \<Rightarrow> ExpandCore \<Rightarrow> bool" where
  "documentDocumentSettled nodeId repository fallback linkDoc T =
     (case getDocument repository (dl_documentKey linkDoc) of
        None \<Rightarrow> True
      | Some linkedDoc \<Rightarrow>
          settled documentsByKey (documentKey linkedDoc) nodeId
            (linkTypeOr (Some (dl_linkType linkDoc)) fallback) T)"

lemma linkedRecordSettled_grows:
  "grows T T' \<Longrightarrow> linkedRecordSettled n record r T \<Longrightarrow> linkedRecordSettled n record r T'"
  unfolding linkedRecordSettled_def by (rule settled_records_grows)

lemma linkedDocumentSettled_grows:
  "grows T T' \<Longrightarrow> linkedDocumentSettled n record d T \<Longrightarrow> linkedDocumentSettled n record d T'"
  unfolding linkedDocumentSettled_def by (rule settled_documents_grows)

lemma documentRecordSettled_grows:
  "grows T T' \<Longrightarrow> documentRecordSettled n repo l T \<Longrightarrow> documentRecordSettled n repo l T'"
  unfolding documentRecordSettled_def
  by (cases "getRecord repo (rl_recordKey l)") (simp_all add: settled_records_grows)

lemma documentDocumentSettled_grows:
  "grows T T' \<Longrightarrow> documentDocumentSettled n repo fb l T \<Longrightarrow> documentDocumentSettled n repo fb l T'"
  unfolding documentDocumentSettled_def
  by (cases "getDocument repo (dl_documentKey l)") (simp_all add: settled_documents_grows)

lemma linkedRecordSettled_ids:
  "linkedRecordSettled n record r (i, ns, es) \<Longrightarrow> node_id ` set ns = node_id ` set ns' \<Longrightarrow>
   linkedRecordSettled n record r (i, ns', es)"
  unfolding linkedRecordSettled_def by (rule settled_ids)

lemma linkedDocumentSettled_ids:
  "linkedDocumentSettled n record d (i, ns, es) \<Longrightarrow> node_id ` set ns = node_id ` set ns' \<Longrightarrow>
   linkedDocumentSettled n record d (i, ns', es)"
  unfolding linkedDocumentSettled_def by (rule settled_ids)

lemma documentRecordSettled_ids:
  "documentRecordSettled n repo l (i, ns, es) \<Longrightarrow> node_id ` set ns = node_id ` set ns' \<Longrightarrow>
   documentRecordSettled n repo l (i, ns', es)"
  unfolding documentRecordSettled_def
  by (cases "getRecord repo (rl_recordKey l)") (simp_all add: settled_ids)

lemma documentDocumentSettled_ids:
  "documentDocumentSettled n repo fb l (i, ns, es) \<Longrightarrow> node_id ` set ns = node_id ` set ns' \<Longrightarrow>
   documentDocumentSettled n repo fb l (i, ns', es)"
  unfolding documentDocumentSettled_def
  by (cases "getDocument repo (dl_documentKey l)") (simp_all add: settled_ids)

text \<open>A linked record of a record.\<close>

lemma addLinkedRecord_grows:
  "grows (core V) (core (addLinkedRecord n record bx r V))"
proof -
  obtain i ns es y where V: "V = (i, ns, es, y)" by (cases V)
  obtain i' c where g: "getOrCreateRecordNode i r \<lparr> pos_x = bx, pos_y = y \<rparr> = (i', c)"
    by (cases "getOrCreateRecordNode i r \<lparr> pos_x = bx, pos_y = y \<rparr>")
  show ?thesis
    using getOrCreateRecordNode_result [OF g]
    by (simp add: V addLinkedRecord_def g push_grows)
qed

lemma addLinkedRecord_settles:
  "linkedRecordSettled n record r (core (addLinkedRecord n record bx r V))"
proof -
  obtain i ns es y where V: "V = (i, ns, es, y)" by (cases V)
  obtain i' c where g: "getOrCreateRecordNode i r \<lparr> pos_x = bx, pos_y = y \<rparr> = (i', c)"
    by (cases "getOrCreateRecordNode i r \<lparr> pos_x = bx, pos_y = y \<rparr>")
  show ?thesis
    using getOrCreateRecordNode_result(1) [OF g]
    by (simp add: V addLinkedRecord_def g linkedRecordSettled_def linkedRecordType_def
        push_settled)
qed

lemma addLinkedRecord_noop:
  assumes "linkedRecordSettled n record r (core V)"
  shows "core (addLinkedRecord n record bx r V) = core V"
proof -
  obtain i ns es y where V: "V = (i, ns, es, y)" by (cases V)
  from assms obtain c where c: "recordsByKey i (recordKey r) = Some c"
    "node_id c \<in> node_id ` set ns" "hasEdge es n (node_id c) (linkedRecordType record r)"
    by (auto simp: V linkedRecordSettled_def settled_def)
  show ?thesis
    using c(2,3)
    by (simp add: V addLinkedRecord_def getOrCreateRecordNode_hit [OF c(1)]
        pushNode_present pushEdge_present linkedRecordType_def)
qed

text \<open>A linked document of a record.\<close>

lemma addLinkedDocument_grows:
  "grows (core V) (core (addLinkedDocument n record bx d V))"
proof -
  obtain i ns es y where V: "V = (i, ns, es, y)" by (cases V)
  obtain i' c where g: "getOrCreateDocumentNode i d \<lparr> pos_x = bx, pos_y = y \<rparr> = (i', c)"
    by (cases "getOrCreateDocumentNode i d \<lparr> pos_x = bx, pos_y = y \<rparr>")
  show ?thesis
    using getOrCreateDocumentNode_result [OF g]
    by (simp add: V addLinkedDocument_def g push_grows)
qed

lemma addLinkedDocument_settles:
  "linkedDocumentSettled n record d (core (addLinkedDocument n record bx d V))"
proof -
  obtain i ns es y where V: "V = (i, ns, es, y)" by (cases V)
  obtain i' c where g: "getOrCreateDocumentNode i d \<lparr> pos_x = bx, pos_y = y \<rparr> = (i', c)"
    by (cases "getOrCreateDocumentNode i d \<lparr> pos_x = bx, pos_y = y \<rparr>")
  show ?thesis
    using getOrCreateDocumentNode_result(1) [OF g]
    by (simp add: V addLinkedDocument_def g linkedDocumentSettled_def linkedDocumentType_def
        push_settled)
qed

lemma addLinkedDocument_noop:
  assumes "linkedDocumentSettled n record d (core V)"
  shows "core (addLinkedDocument n record bx d V) = core V"
proof -
  obtain i ns es y where V: "V = (i, ns, es, y)" by (cases V)
  from assms obtain c where c: "documentsByKey i (documentKey d) = Some c"
    "node_id c \<in> node_id ` set ns" "hasEdge es n (node_id c) (linkedDocumentType record d)"
    by (auto simp: V linkedDocumentSettled_def settled_def)
  show ?thesis
    using c(2,3)
    by (simp add: V addLinkedDocument_def getOrCreateDocumentNode_hit [OF c(1)]
        pushNode_present pushEdge_present linkedDocumentType_def)
qed

text \<open>A version of a document.\<close>

lemma addVersion_grows:
  "grows (core V) (core (addVersion n document bx v V))"
proof -
  obtain i ns es y where V: "V = (i, ns, es, y)" by (cases V)
  obtain i' c where g: "getOrCreateDocumentVersionNode i (documentKey document) v
      \<lparr> pos_x = bx + 80, pos_y = y \<rparr> = (i', c)"
    by (cases "getOrCreateDocumentVersionNode i (documentKey document) v
      \<lparr> pos_x = bx + 80, pos_y = y \<rparr>")
  show ?thesis
    using getOrCreateDocumentVersionNode_result [OF g]
    by (simp add: V addVersion_def g push_grows)
qed

text \<open>A linked record of a document, with the loop over the versions inside.\<close>

lemma addDocumentRecord_cases:
  obtains (absent) "getRecord repo (rl_recordKey l) = None"
      "addDocumentRecord n document repo bx l (i, ns, es, y) = (i, ns, es, y)"
  | (pushed) r i1 c i2 ns2 es2 y2 where "getRecord repo (rl_recordKey l) = Some r"
      "getOrCreateRecordNode i r \<lparr> pos_x = bx, pos_y = y \<rparr> = (i1, c)"
      "node_id c \<notin> node_id ` set ns"
      "fold (addVersion n document bx) (versions document) (i1, ns @ [c], es, y)
         = (i2, ns2, es2, y2)"
      "addDocumentRecord n document repo bx l (i, ns, es, y)
         = (i2, ns2, pushEdge n (node_id c) (linkTypeOr (Some (rl_linkType l)) ''references'') es2,
            y2 + 120)"
  | (found) r i1 c where "getRecord repo (rl_recordKey l) = Some r"
      "getOrCreateRecordNode i r \<lparr> pos_x = bx, pos_y = y \<rparr> = (i1, c)"
      "node_id c \<in> node_id ` set ns"
      "addDocumentRecord n document repo bx l (i, ns, es, y)
         = (i1, ns, pushEdge n (node_id c) (linkTypeOr (Some (rl_linkType l)) ''references'') es,
            y + 120)"
proof (cases "getRecord repo (rl_recordKey l)")
  case None
  then show ?thesis by (intro absent) (simp_all add: addDocumentRecord_def)
next
  case (Some r)
  obtain i1 c where g: "getOrCreateRecordNode i r \<lparr> pos_x = bx, pos_y = y \<rparr> = (i1, c)"
    by (cases "getOrCreateRecordNode i r \<lparr> pos_x = bx, pos_y = y \<rparr>")
  show ?thesis
  proof (cases "node_id c \<in> node_id ` set ns")
    case True
    then show ?thesis
      using Some g by (intro found [of r i1 c]) (simp_all add: addDocumentRecord_def find_id_None)
  next
    case False
    obtain i2 ns2 es2 y2 where f:
      "fold (addVersion n document bx) (versions document) (i1, ns @ [c], es, y)
         = (i2, ns2, es2, y2)"
      by (cases "fold (addVersion n document bx) (versions document) (i1, ns @ [c], es, y)")
    show ?thesis
      using Some g False f
      by (intro pushed [of r i1 c i2 ns2 es2 y2]) (simp_all add: addDocumentRecord_def find_id_None)
  qed
qed

lemma addDocumentRecord_grows:
  "grows (core V) (core (addDocumentRecord n document repo bx l V))"
proof -
  obtain i ns es y where V: "V = (i, ns, es, y)" by (cases V)
  show ?thesis
  proof (cases rule: addDocumentRecord_cases [of repo l n document bx i ns es y])
    case absent
    then show ?thesis by (simp add: V)
  next
    case (pushed r i1 c i2 ns2 es2 y2)
    note g = getOrCreateRecordNode_result [OF pushed(2)]
    have "grows (i, ns, es) (i1, ns @ [c], es)"
      using g by (intro growsI) simp_all
    moreover have "grows (core (i1, ns @ [c], es, y))
        (core (fold (addVersion n document bx) (versions document) (i1, ns @ [c], es, y)))"
      by (rule fold_grows) (rule addVersion_grows)
    then have "grows (i1, ns @ [c], es) (i2, ns2, es2)" by (simp add: pushed(4))
    moreover have "grows (i2, ns2, es2)
        (i2, ns2, pushEdge n (node_id c) (linkTypeOr (Some (rl_linkType l)) ''references'') es2)"
      by (intro growsI) (simp_all add: pushEdge_keeps)
    ultimately show ?thesis
      unfolding V pushed(5) core_simp by (blast intro: grows_trans)
  next
    case (found r i1 c)
    note g = getOrCreateRecordNode_result [OF found(2)]
    show ?thesis
      unfolding V found(4) core_simp using g
      by (intro growsI) (simp_all add: pushEdge_keeps)
  qed
qed

lemma addDocumentRecord_settles:
  "documentRecordSettled n repo l (core (addDocumentRecord n document repo bx l V))"
proof -
  obtain i ns es y where V: "V = (i, ns, es, y)" by (cases V)
  show ?thesis
  proof (cases rule: addDocumentRecord_cases [of repo l n document bx i ns es y])
    case absent
    then show ?thesis by (simp add: V documentRecordSettled_def)
  next
    case (pushed r i1 c i2 ns2 es2 y2)
    note g = getOrCreateRecordNode_result [OF pushed(2)]
    have "grows (core (i1, ns @ [c], es, y))
        (core (fold (addVersion n document bx) (versions document) (i1, ns @ [c], es, y)))"
      by (rule fold_grows) (rule addVersion_grows)
    then have gr: "grows (i1, ns @ [c], es) (i2, ns2, es2)" by (simp add: pushed(4))
    from gr g(1) have "recordsByKey i2 (recordKey r) = Some c"
      by (auto simp: grows_def map_le_def dom_def)
    moreover from gr have "node_id c \<in> node_id ` set ns2"
      by (auto simp: grows_def prefix_def)
    ultimately show ?thesis
      unfolding V pushed(5) core_simp
      by (auto simp: documentRecordSettled_def pushed(1) settled_def pushEdge_has)
  next
    case (found r i1 c)
    note g = getOrCreateRecordNode_result [OF found(2)]
    show ?thesis
      unfolding V found(4) core_simp using g(1) found(3)
      by (auto simp: documentRecordSettled_def found(1) settled_def pushEdge_has)
  qed
qed

lemma addDocumentRecord_noop:
  assumes "documentRecordSettled n repo l (core V)"
  shows "core (addDocumentRecord n document repo bx l V) = core V"
proof -
  obtain i ns es y where V: "V = (i, ns, es, y)" by (cases V)
  show ?thesis
  proof (cases "getRecord repo (rl_recordKey l)")
    case None
    then show ?thesis by (simp add: V addDocumentRecord_def)
  next
    case (Some r)
    with assms obtain c where c: "recordsByKey i (recordKey r) = Some c"
      "node_id c \<in> node_id ` set ns"
      "hasEdge es n (node_id c) (linkTypeOr (Some (rl_linkType l)) ''references'')"
      by (auto simp: V documentRecordSettled_def settled_def)
    show ?thesis
      using c(2,3)
      by (simp add: V addDocumentRecord_def Some getOrCreateRecordNode_hit [OF c(1)]
          find_id_None pushEdge_present)
  qed
qed

text \<open>A linked document of a document.\<close>

lemma addDocumentDocument_grows:
  "grows (core V) (core (addDocumentDocument n repo bx fb l V))"
proof -
  obtain i ns es y where V: "V = (i, ns, es, y)" by (cases V)
  show ?thesis
  proof (cases "getDocument repo (dl_documentKey l)")
    case None
    then show ?thesis by (simp add: V addDocumentDocument_def)
  next
    case (Some d)
    obtain i' c where g: "getOrCreateDocumentNode i d \<lparr> pos_x = bx, pos_y = y \<rparr> = (i', c)"
      by (cases "getOrCreateDocumentNode i d \<lparr> pos_x = bx, pos_y = y \<rparr>")
    show ?thesis
      using getOrCreateDocumentNode_result [OF g]
      by (simp add: V addDocumentDocument_def Some g push_grows)
  qed
qed

lemma addDocumentDocument_settles:
  "documentDocumentSettled n repo fb l (core (addDocumentDocument n repo bx fb l V))"
proof -
  obtain i ns es y where V: "V = (i, ns, es, y)" by (cases V)
  show ?thesis
  proof (cases "getDocument repo (dl_documentKey l)")
    case None
    then show ?thesis by (simp add: V addDocumentDocument_def documentDocumentSettled_def)
  next
    case (Some d)
    obtain i' c where g: "getOrCreateDocumentNode i d \<lparr> pos_x = bx, pos_y = y \<rparr> = (i', c)"
      by (cases "getOrCreateDocumentNode i d \<lparr> pos_x = bx, pos_y = y \<rparr>")
    show ?thesis
      using getOrCreateDocumentNode_result(1) [OF g]
      by (simp add: V addDocumentDocument_def Some g documentDocumentSettled_def push_settled)
  qed
qed

lemma addDocumentDocument_noop:
  assumes "documentDocumentSettled n repo fb l (core V)"
  shows "core (addDocumentDocument n repo bx fb l V) = core V"
proof -
  obtain i ns es y where V: "V = (i, ns, es, y)" by (cases V)
  show ?thesis
  proof (cases "getDocument repo (dl_documentKey l)")
    case None
    then show ?thesis by (simp add: V addDocumentDocument_def)
  next
    case (Some d)
    with assms obtain c where c: "documentsByKey i (documentKey d) = Some c"
      "node_id c \<in> node_id ` set ns"
      "hasEdge es n (node_id c) (linkTypeOr (Some (dl_linkType l)) fb)"
      by (auto simp: V documentDocumentSettled_def settled_def)
    show ?thesis
      using c(2,3)
      by (simp add: V addDocumentDocument_def Some getOrCreateDocumentNode_hit [OF c(1)]
          pushNode_present pushEdge_present)
  qed
qed

text \<open>Two loops, one after the other, and then the same two loops again.\<close>

lemma two_loops_again:
  assumes g1: "\<And>x V. grows (core V) (core (f x V))"
    and s1: "\<And>x V. S x (core (f x V))"
    and m1: "\<And>x T T'. grows T T' \<Longrightarrow> S x T \<Longrightarrow> S x T'"
    and i1: "\<And>x i ns ns' es. S x (i, ns, es) \<Longrightarrow> node_id ` set ns = node_id ` set ns' \<Longrightarrow>
               S x (i, ns', es)"
    and n1: "\<And>x V. S x (core V) \<Longrightarrow> core (f' x V) = core V"
    and g2: "\<And>x V. grows (core V) (core (g x V))"
    and s2: "\<And>x V. R x (core (g x V))"
    and m2: "\<And>x T T'. grows T T' \<Longrightarrow> R x T \<Longrightarrow> R x T'"
    and i2: "\<And>x i ns ns' es. R x (i, ns, es) \<Longrightarrow> node_id ` set ns = node_id ` set ns' \<Longrightarrow>
               R x (i, ns', es)"
    and n2: "\<And>x V. R x (core V) \<Longrightarrow> core (g' x V) = core V"
    and run: "core (fold g ys (fold f xs V)) = (i, ns, es)"
    and ids: "node_id ` set ns = node_id ` set ns'"
  shows "core (fold g' ys (fold f' xs (i, ns', es, y'))) = (i, ns', es)"
proof -
  have a: "S x (i, ns, es)" if "x \<in> set xs" for x
  proof -
    have "S x (core (fold f xs V))" using g1 s1 m1 that by (rule fold_settles)
    moreover have "grows (core (fold f xs V)) (core (fold g ys (fold f xs V)))"
      using g2 by (rule fold_grows)
    ultimately show ?thesis using m1 run by metis
  qed
  have b: "R x (i, ns, es)" if "x \<in> set ys" for x
    using fold_settles [of g R x ys "fold f xs V", OF g2 s2 m2 that] run by simp
  have 1: "core (fold f' xs (i, ns', es, y')) = core (i, ns', es, y')"
    by (rule fold_noop [of S f']) (auto intro: n1 i1 [OF a ids])
  have "core (fold g' ys (fold f' xs (i, ns', es, y'))) = core (fold f' xs (i, ns', es, y'))"
    by (rule fold_noop [of R g']) (auto intro: n2 simp: 1 i2 [OF b ids])
  with 1 show ?thesis by simp
qed

section \<open>Expanding twice\<close>

text \<open>The end of an expansion, and the source node of the next one.\<close>

definition marked :: "string \<Rightarrow> FlowNode \<Rightarrow> bool" where
  "marked nodeId n = (node_id n = nodeId \<longrightarrow> isExpanded (node_data n) = Some True)"

lemma marked_unplaced: "marked nodeId (unplaced n) = marked nodeId n"
  by (simp add: marked_def unplaced_def)

lemma markExpanded_map_ids: "map node_id (markExpanded nodeId ns) = map node_id ns"
  by (simp add: markExpanded_def)

lemma markExpanded_ids [simp]: "node_id ` set (markExpanded nodeId ns) = node_id ` set ns"
  using markExpanded_map_ids [of nodeId ns] by (metis set_map)

lemma markExpanded_marked:
  assumes "m \<in> set (markExpanded nodeId ns)"
  shows "marked nodeId m"
proof -
  from assms obtain n where
    m: "m = (if node_id n = nodeId
             then n\<lparr>node_data := (node_data n)\<lparr>isExpanded := Some True\<rparr>\<rparr> else n)"
    unfolding markExpanded_def by (auto simp only: set_map)
  show ?thesis
  proof (cases "node_id n = nodeId")
    case True
    with m show ?thesis by (simp add: marked_def)
  next
    case False
    with m show ?thesis by (simp add: marked_def)
  qed
qed

lemma markExpanded_fixed:
  assumes "\<And>m. m \<in> set ns \<Longrightarrow> marked nodeId m"
  shows "markExpanded nodeId ns = ns"
proof -
  have "(if node_id m = nodeId then m\<lparr>node_data := (node_data m)\<lparr>isExpanded := Some True\<rparr>\<rparr> else m) = m"
    if "m \<in> set ns" for m
  proof (cases "node_id m = nodeId")
    case True
    with assms [OF that] have "isExpanded (node_data m) = Some True" by (simp add: marked_def)
    then have "(node_data m)\<lparr>isExpanded := Some True\<rparr> = node_data m"
      by (cases "node_data m") simp
    then show ?thesis by simp
  next
    case False
    then show ?thesis by simp
  qed
  then show ?thesis unfolding markExpanded_def by (simp add: map_idI)
qed

lemma markExpanded_layout:
  assumes "nodeId \<noteq> []"
  shows "markExpanded nodeId
           (calculateHierarchicalLayout (markExpanded nodeId ns) es (Some nodeId) (Some d))
       = calculateHierarchicalLayout (markExpanded nodeId ns) es (Some nodeId) (Some d)"
proof (rule markExpanded_fixed)
  fix m
  assume "m \<in> set (calculateHierarchicalLayout (markExpanded nodeId ns) es (Some nodeId) (Some d))"
  then have "unplaced m \<in> unplaced ` set (markExpanded nodeId ns)"
    using layout_unplaced_set [OF assms, of "markExpanded nodeId ns" es d] by blast
  then obtain q where q: "q \<in> set (markExpanded nodeId ns)" "unplaced m = unplaced q" by auto
  have "marked nodeId m = marked nodeId (unplaced m)" by (simp only: marked_unplaced)
  also have "\<dots> = marked nodeId (unplaced q)" by (simp only: q(2))
  also have "\<dots> = marked nodeId q" by (simp only: marked_unplaced)
  finally show "marked nodeId m" using markExpanded_marked [OF q(1)] by simp
qed

lemma finishExpand_core:
  "finishExpand nodeId d V =
     (case core V of (i, ns, es) \<Rightarrow>
        (i, calculateHierarchicalLayout (markExpanded nodeId ns) es (Some nodeId) (Some d), es))"
  by (cases V) (simp add: finishExpand_def)

lemma finishExpand_result:
  assumes "finishExpand nodeId d W = (i1, ns1, es1)"
  obtains nsW where "core W = (i1, nsW, es1)"
    "ns1 = calculateHierarchicalLayout (markExpanded nodeId nsW) es1 (Some nodeId) (Some d)"
  using assms by (cases W) (auto simp: finishExpand_def)

lemma finishExpand_again:
  assumes "nodeId \<noteq> []"
    and "ns1 = calculateHierarchicalLayout (markExpanded nodeId nsW) es1 (Some nodeId) (Some d)"
    and "core W' = (i1, ns1, es1)"
  shows "finishExpand nodeId d W' = (i1, ns1, es1)"
  using assms(2,3)
  by (simp add: finishExpand_core markExpanded_layout [OF assms(1)] layout_idempotent [OF assms(1)])

lemma layout_result_ids:
  assumes "nodeId \<noteq> []"
    and "ns1 = calculateHierarchicalLayout (markExpanded nodeId nsW) es1 (Some nodeId) (Some d)"
  shows "node_id ` set nsW = node_id ` set ns1"
  using assms(2) by (simp add: layout_ids [OF assms(1)])

lemma find_markExpanded:
  "find (\<lambda>m. node_id m = k) (markExpanded nodeId ns)
     = map_option (\<lambda>n. if node_id n = nodeId
                        then n\<lparr>node_data := (node_data n)\<lparr>isExpanded := Some True\<rparr>\<rparr> else n)
         (find (\<lambda>m. node_id m = k) ns)"
  unfolding markExpanded_def by (induction ns) simp_all

lemma source_again:
  assumes ne: "nodeId \<noteq> []"
    and f: "find (\<lambda>m. node_id m = nodeId) ns0 = Some s"
    and p: "prefix ns0 nsW"
    and l: "ns1 = calculateHierarchicalLayout (markExpanded nodeId nsW) es1 (Some nodeId) (Some d)"
  obtains s' where "find (\<lambda>m. node_id m = nodeId) ns1 = Some s'"
    "node_type s' = node_type s"
    "nd_recordKey (node_data s') = nd_recordKey (node_data s)"
    "nd_documentKey (node_data s') = nd_documentKey (node_data s)"
proof -
  from p obtain zs where "nsW = ns0 @ zs" by (auto simp: prefix_def)
  with f have "find (\<lambda>m. node_id m = nodeId) nsW = Some s" by (simp add: find_app)
  then have "find (\<lambda>m. node_id m = nodeId) (markExpanded nodeId nsW)
      = Some (if node_id s = nodeId
              then s\<lparr>node_data := (node_data s)\<lparr>isExpanded := Some True\<rparr>\<rparr> else s)"
    (is "_ = Some ?t")
    by (simp only: find_markExpanded option.map)
  then have "map_option unplaced (find (\<lambda>m. node_id m = nodeId) ns1) = Some (unplaced ?t)"
    unfolding l by (simp only: layout_find [OF ne] option.map)
  then obtain s' where s': "find (\<lambda>m. node_id m = nodeId) ns1 = Some s'"
    "unplaced s' = unplaced ?t" by auto
  have "node_type s' = node_type (unplaced s')" "node_data s' = node_data (unplaced s')"
    by (simp_all add: unplaced_def)
  with s'(2) have "node_type s' = node_type s"
    "nd_recordKey (node_data s') = nd_recordKey (node_data s)"
    "nd_documentKey (node_data s') = nd_documentKey (node_data s)"
    by (simp_all add: unplaced_def)
  with s'(1) show ?thesis by (rule that)
qed

text \<open>\<open>expandNode\<close> by the branch it takes.\<close>

definition directionOr :: "Direction option \<Rightarrow> Direction" where
  "directionOr layoutDirection = (case layoutDirection of None \<Rightarrow> DirTB | Some d \<Rightarrow> d)"

datatype ExpandBranch = Unchanged | RecordBranch RecordNode | DocumentBranch Document | NoLinks

definition expandBranch :: "FlowNode option \<Rightarrow> DataRepository \<Rightarrow> ExpandBranch" where
  "expandBranch sourceNode repository =
     (case sourceNode of
        None \<Rightarrow> Unchanged
      | Some s \<Rightarrow>
          if node_type s = RecordT then
            (case nd_recordKey (node_data s) of
               None \<Rightarrow> Unchanged
             | Some key \<Rightarrow> if key = [] then Unchanged
                 else (case getRecord repository key of
                         None \<Rightarrow> Unchanged | Some record \<Rightarrow> RecordBranch record))
          else if node_type s = DocumentT then
            (case nd_documentKey (node_data s) of
               None \<Rightarrow> Unchanged
             | Some key \<Rightarrow> if key = [] then Unchanged
                 else (case getDocument repository key of
                         None \<Rightarrow> Unchanged | Some document \<Rightarrow> DocumentBranch document))
          else NoLinks)"

lemma expandNode_branch:
  "expandNode index dir nodeId nodes edges repository =
     (case expandBranch (find (\<lambda>n. node_id n = nodeId) nodes) repository of
        Unchanged \<Rightarrow> (index, nodes, edges)
      | RecordBranch record \<Rightarrow>
          (let s = the (find (\<lambda>n. node_id n = nodeId) nodes);
               baseXOffset = pos_x (position s) + 250; yOffset = pos_y (position s) - 100
           in finishExpand nodeId (directionOr dir)
                (fold (addLinkedDocument nodeId record baseXOffset)
                   (collectLinkedDocuments record repository)
                   (fold (addLinkedRecord nodeId record baseXOffset)
                      (collectLinkedRecords record repository)
                      (index, nodes, edges, yOffset))))
      | DocumentBranch document \<Rightarrow>
          (let s = the (find (\<lambda>n. node_id n = nodeId) nodes);
               baseXOffset = pos_x (position s) + 250; yOffset = pos_y (position s) - 100
           in finishExpand nodeId (directionOr dir)
                (fold (addDocumentDocument nodeId repository baseXOffset ''references'')
                   (d_linkedDocuments document)
                   (fold (addDocumentRecord nodeId document repository baseXOffset)
                      (d_linkedRecords document)
                      (index, nodes, edges, yOffset))))
      | NoLinks \<Rightarrow>
          (let s = the (find (\<lambda>n. node_id n = nodeId) nodes)
           in finishExpand nodeId (directionOr dir)
                (index, nodes, edges, pos_y (position s) - 100)))"
  by (simp add: expandNode_def expandBranch_def directionOr_def Let_def split: option.splits)

lemma expandBranch_again:
  assumes "find (\<lambda>m. node_id m = nodeId) ns1 = Some s'"
    "node_type s' = node_type s"
    "nd_recordKey (node_data s') = nd_recordKey (node_data s)"
    "nd_documentKey (node_data s') = nd_documentKey (node_data s)"
  shows "expandBranch (find (\<lambda>m. node_id m = nodeId) ns1) repository
       = expandBranch (Some s) repository"
  using assms by (simp add: expandBranch_def)

lemma expandBranch_None [simp]: "expandBranch None repository = Unchanged"
  by (simp add: expandBranch_def)

lemma loops_prefix:
  assumes "\<And>x V. grows (core V) (core (f x V))" "\<And>x V. grows (core V) (core (g x V))"
    and "core (fold g ys (fold f xs (i, ns, es, y))) = (i1, nsW, es1)"
  shows "prefix ns nsW"
proof -
  have "grows (core (i, ns, es, y)) (core (fold f xs (i, ns, es, y)))"
    using assms(1) by (rule fold_grows)
  moreover have "grows (core (fold f xs (i, ns, es, y))) (core (fold g ys (fold f xs (i, ns, es, y))))"
    using assms(2) by (rule fold_grows)
  ultimately have "grows (i, ns, es) (i1, nsW, es1)"
    using assms(3) grows_trans by fastforce
  then show ?thesis by (simp add: grows_def)
qed

lemma record_loops_again:
  assumes "core (fold (addLinkedDocument n record bx) ds
              (fold (addLinkedRecord n record bx) rs V)) = (i, ns, es)"
    and "node_id ` set ns = node_id ` set ns'"
  shows "core (fold (addLinkedDocument n record bx') ds
              (fold (addLinkedRecord n record bx') rs (i, ns', es, y'))) = (i, ns', es)"
  by (rule two_loops_again [where S = "linkedRecordSettled n record"
        and R = "linkedDocumentSettled n record"
        and f = "addLinkedRecord n record bx" and g = "addLinkedDocument n record bx",
        OF addLinkedRecord_grows addLinkedRecord_settles linkedRecordSettled_grows
          linkedRecordSettled_ids addLinkedRecord_noop
          addLinkedDocument_grows addLinkedDocument_settles linkedDocumentSettled_grows
          linkedDocumentSettled_ids addLinkedDocument_noop assms])

lemma document_loops_again:
  assumes "core (fold (addDocumentDocument n repo bx fb) ds
              (fold (addDocumentRecord n document repo bx) rs V)) = (i, ns, es)"
    and "node_id ` set ns = node_id ` set ns'"
  shows "core (fold (addDocumentDocument n repo bx' fb) ds
              (fold (addDocumentRecord n document repo bx') rs (i, ns', es, y'))) = (i, ns', es)"
  by (rule two_loops_again [where S = "documentRecordSettled n repo"
        and R = "documentDocumentSettled n repo fb"
        and f = "addDocumentRecord n document repo bx" and g = "addDocumentDocument n repo bx fb",
        OF addDocumentRecord_grows addDocumentRecord_settles documentRecordSettled_grows
          documentRecordSettled_ids addDocumentRecord_noop
          addDocumentDocument_grows addDocumentDocument_settles documentDocumentSettled_grows
          documentDocumentSettled_ids addDocumentDocument_noop assms])

definition expandAgain ::
  "NodeIndex \<Rightarrow> Direction option \<Rightarrow> string \<Rightarrow> FlowNode list \<Rightarrow> FlowEdge list \<Rightarrow> DataRepository
   \<Rightarrow> NodeIndex \<times> FlowNode list \<times> FlowEdge list" where
  "expandAgain index layoutDirection nodeId nodes edges repository =
     (case expandNode index layoutDirection nodeId nodes edges repository of
        (index1, nodes1, edges1) \<Rightarrow>
          expandNode index1 layoutDirection nodeId nodes1 edges1 repository)"

lemma expandNode_fixed:
  assumes ne: "nodeId \<noteq> []"
    and run: "expandNode index dir nodeId nodes edges repository = (i1, ns1, es1)"
  shows "expandNode i1 dir nodeId ns1 es1 repository = (i1, ns1, es1)"
proof (cases "expandBranch (find (\<lambda>n. node_id n = nodeId) nodes) repository")
  case Unchanged
  with run have "(i1, ns1, es1) = (index, nodes, edges)" by (simp add: expandNode_branch)
  then show ?thesis using Unchanged by (simp add: expandNode_branch)
next
  case (RecordBranch sourceRecord)
  then obtain s where s: "find (\<lambda>n. node_id n = nodeId) nodes = Some s"
    by (cases "find (\<lambda>n. node_id n = nodeId) nodes") simp_all
  define W where "W = fold (addLinkedDocument nodeId sourceRecord (pos_x (position s) + 250))
      (collectLinkedDocuments sourceRecord repository)
      (fold (addLinkedRecord nodeId sourceRecord (pos_x (position s) + 250))
         (collectLinkedRecords sourceRecord repository)
         (index, nodes, edges, pos_y (position s) - 100))"
  from run RecordBranch s have "finishExpand nodeId (directionOr dir) W = (i1, ns1, es1)"
    by (simp add: expandNode_branch W_def Let_def)
  then obtain nsW where W: "core W = (i1, nsW, es1)"
    and l: "ns1 = calculateHierarchicalLayout (markExpanded nodeId nsW) es1 (Some nodeId)
          (Some (directionOr dir))"
    by (rule finishExpand_result)
  have p: "prefix nodes nsW"
    using addLinkedRecord_grows addLinkedDocument_grows W [unfolded W_def] by (rule loops_prefix)
  from ne s p l obtain s' where s': "find (\<lambda>m. node_id m = nodeId) ns1 = Some s'"
    "node_type s' = node_type s"
    "nd_recordKey (node_data s') = nd_recordKey (node_data s)"
    "nd_documentKey (node_data s') = nd_documentKey (node_data s)"
    by (rule source_again)
  have b: "expandBranch (find (\<lambda>m. node_id m = nodeId) ns1) repository = RecordBranch sourceRecord"
    using expandBranch_again [OF s'] RecordBranch s by simp
  have ids: "node_id ` set nsW = node_id ` set ns1" using ne l by (rule layout_result_ids)
  have "core (fold (addLinkedDocument nodeId sourceRecord (pos_x (position s') + 250))
      (collectLinkedDocuments sourceRecord repository)
      (fold (addLinkedRecord nodeId sourceRecord (pos_x (position s') + 250))
         (collectLinkedRecords sourceRecord repository)
         (i1, ns1, es1, pos_y (position s') - 100))) = (i1, ns1, es1)"
    using W [unfolded W_def] ids by (rule record_loops_again)
  with ne l have "finishExpand nodeId (directionOr dir)
     (fold (addLinkedDocument nodeId sourceRecord (pos_x (position s') + 250))
      (collectLinkedDocuments sourceRecord repository)
      (fold (addLinkedRecord nodeId sourceRecord (pos_x (position s') + 250))
         (collectLinkedRecords sourceRecord repository)
         (i1, ns1, es1, pos_y (position s') - 100))) = (i1, ns1, es1)"
    by (rule finishExpand_again)
  then show ?thesis unfolding expandNode_branch b by (simp add: s'(1) Let_def)
next
  case (DocumentBranch sourceDocument)
  then obtain s where s: "find (\<lambda>n. node_id n = nodeId) nodes = Some s"
    by (cases "find (\<lambda>n. node_id n = nodeId) nodes") simp_all
  define W where "W = fold (addDocumentDocument nodeId repository (pos_x (position s) + 250)
        ''references'')
      (d_linkedDocuments sourceDocument)
      (fold (addDocumentRecord nodeId sourceDocument repository (pos_x (position s) + 250))
         (d_linkedRecords sourceDocument)
         (index, nodes, edges, pos_y (position s) - 100))"
  from run DocumentBranch s have "finishExpand nodeId (directionOr dir) W = (i1, ns1, es1)"
    by (simp add: expandNode_branch W_def Let_def)
  then obtain nsW where W: "core W = (i1, nsW, es1)"
    and l: "ns1 = calculateHierarchicalLayout (markExpanded nodeId nsW) es1 (Some nodeId)
          (Some (directionOr dir))"
    by (rule finishExpand_result)
  have p: "prefix nodes nsW"
    using addDocumentRecord_grows addDocumentDocument_grows W [unfolded W_def]
    by (rule loops_prefix)
  from ne s p l obtain s' where s': "find (\<lambda>m. node_id m = nodeId) ns1 = Some s'"
    "node_type s' = node_type s"
    "nd_recordKey (node_data s') = nd_recordKey (node_data s)"
    "nd_documentKey (node_data s') = nd_documentKey (node_data s)"
    by (rule source_again)
  have b: "expandBranch (find (\<lambda>m. node_id m = nodeId) ns1) repository = DocumentBranch sourceDocument"
    using expandBranch_again [OF s'] DocumentBranch s by simp
  have ids: "node_id ` set nsW = node_id ` set ns1" using ne l by (rule layout_result_ids)
  have "core (fold (addDocumentDocument nodeId repository (pos_x (position s') + 250)
        ''references'')
      (d_linkedDocuments sourceDocument)
      (fold (addDocumentRecord nodeId sourceDocument repository (pos_x (position s') + 250))
         (d_linkedRecords sourceDocument)
         (i1, ns1, es1, pos_y (position s') - 100))) = (i1, ns1, es1)"
    using W [unfolded W_def] ids by (rule document_loops_again)
  with ne l have "finishExpand nodeId (directionOr dir)
     (fold (addDocumentDocument nodeId repository (pos_x (position s') + 250) ''references'')
      (d_linkedDocuments sourceDocument)
      (fold (addDocumentRecord nodeId sourceDocument repository (pos_x (position s') + 250))
         (d_linkedRecords sourceDocument)
         (i1, ns1, es1, pos_y (position s') - 100))) = (i1, ns1, es1)"
    by (rule finishExpand_again)
  then show ?thesis unfolding expandNode_branch b by (simp add: s'(1) Let_def)
next
  case NoLinks
  then obtain s where s: "find (\<lambda>n. node_id n = nodeId) nodes = Some s"
    by (cases "find (\<lambda>n. node_id n = nodeId) nodes") simp_all
  from run NoLinks s have
    "finishExpand nodeId (directionOr dir) (index, nodes, edges, pos_y (position s) - 100)
       = (i1, ns1, es1)"
    by (simp add: expandNode_branch Let_def)
  then obtain nsW where W: "core (index, nodes, edges, pos_y (position s) - 100) = (i1, nsW, es1)"
    and l: "ns1 = calculateHierarchicalLayout (markExpanded nodeId nsW) es1 (Some nodeId)
          (Some (directionOr dir))"
    by (rule finishExpand_result)
  from W have p: "prefix nodes nsW" by simp
  from ne s p l obtain s' where s': "find (\<lambda>m. node_id m = nodeId) ns1 = Some s'"
    "node_type s' = node_type s"
    "nd_recordKey (node_data s') = nd_recordKey (node_data s)"
    "nd_documentKey (node_data s') = nd_documentKey (node_data s)"
    by (rule source_again)
  have b: "expandBranch (find (\<lambda>m. node_id m = nodeId) ns1) repository = NoLinks"
    using expandBranch_again [OF s'] NoLinks s by simp
  have "core (i1, ns1, es1, pos_y (position s') - 100) = (i1, ns1, es1)" by simp
  with ne l have "finishExpand nodeId (directionOr dir) (i1, ns1, es1, pos_y (position s') - 100)
      = (i1, ns1, es1)"
    by (rule finishExpand_again)
  then show ?thesis unfolding expandNode_branch b by (simp add: s'(1) Let_def)
qed

subsection \<open>Example: a record with a linked record and a linked document\<close>

definition exTeamRecords :: "RecordNode list" where
  "exTeamRecords =
     [mkRecord ''R1'' ''Team'' [\<lparr> rl_recordKey = ''R2'', rl_linkType = ''depends_on'' \<rparr>]
        [\<lparr> dl_documentKey = ''D3'', dl_versionId = None, dl_linkType = ''references'' \<rparr>],
      mkRecord ''R2'' ''Platform'' [] []]"

definition exTeamRepository :: DataRepository where
  "exTeamRepository = snd (createDataRepository (\<lambda>r. exDesign) exTeamRecords [0])"

definition exTeamIndex :: NodeIndex where
  "exTeamIndex = fst (getOrCreateRecordNode createNodeIndex (hd exTeamRecords) originPosition)"

definition exTeamNode :: FlowNode where
  "exTeamNode = snd (getOrCreateRecordNode createNodeIndex (hd exTeamRecords) originPosition)"

lemma expandNode_exTeam:
  "map (\<lambda>n. (node_id n, position n, isExpanded (node_data n)))
     (fst (snd (expandNode exTeamIndex None ''record-R1'' [exTeamNode] [] exTeamRepository)))
     = [(''record-R1'', \<lparr>pos_x = - 210, pos_y = 0\<rparr>, Some True),
        (''record-R2'', \<lparr>pos_x = - 420, pos_y = 380\<rparr>, Some False),
        (''document-D3'', \<lparr>pos_x = 0, pos_y = 380\<rparr>, Some False)]"
  "map (\<lambda>e. (source e, target e, edge_linkType e))
     (snd (snd (expandNode exTeamIndex None ''record-R1'' [exTeamNode] [] exTeamRepository)))
     = [(''record-R1'', ''record-R2'', Some ''depends_on''),
        (''record-R1'', ''document-D3'', Some ''references'')]"
  by code_simp+

text \<open>
  C4. Expanding a node twice in a row gives what expanding it once gives: the same nodes,
  in the same order and at the same positions, the same edges and the same node index. The
  second call finds every child in the index and among the nodes, and every edge among the
  edges, so that it appends no node and no edge; marking the source and laying the nodes
  out again change nothing. The node id is not empty, as is every id made by
  \<open>createRecordNodeId\<close>, \<open>createDocumentNodeId\<close> and \<open>createDocumentVersionNodeId\<close>: the
  layout takes an empty root id for an absent one and starts from the first node.
\<close>

theorem expandNode_idempotent:
  "nodeId \<noteq> [] \<Longrightarrow>
   expandAgain index layoutDirection nodeId nodes edges repository
     = expandNode index layoutDirection nodeId nodes edges repository"
proof -
  assume ne: "nodeId \<noteq> []"
  obtain i1 ns1 es1 where
    run: "expandNode index layoutDirection nodeId nodes edges repository = (i1, ns1, es1)"
    by (cases "expandNode index layoutDirection nodeId nodes edges repository")
  show ?thesis
    using expandNode_fixed [OF ne run] by (simp add: expandAgain_def run)
qed

theorem expandNode_idempotent_witness:
  "''record-R1'' \<noteq> []
   \<and> map (\<lambda>n. (node_id n, position n, isExpanded (node_data n)))
       (fst (snd (expandAgain exTeamIndex None ''record-R1'' [exTeamNode] [] exTeamRepository)))
     = [(''record-R1'', \<lparr>pos_x = - 210, pos_y = 0\<rparr>, Some True),
        (''record-R2'', \<lparr>pos_x = - 420, pos_y = 380\<rparr>, Some False),
        (''document-D3'', \<lparr>pos_x = 0, pos_y = 380\<rparr>, Some False)]
   \<and> map (\<lambda>e. (source e, target e, edge_linkType e))
       (snd (snd (expandAgain exTeamIndex None ''record-R1'' [exTeamNode] [] exTeamRepository)))
     = [(''record-R1'', ''record-R2'', Some ''depends_on''),
        (''record-R1'', ''document-D3'', Some ''references'')]"
  using expandNode_idempotent [of "''record-R1''" exTeamIndex None "[exTeamNode]" "[]"
      exTeamRepository]
  by (simp add: expandNode_exTeam)

end
